theory Spec2Isabelle
  imports Complex_Main
begin

unbundle bit_operations_syntax

section \<open>Data model: half-edges in an arena\<close>

text \<open>
  The half-edge graph of \<^verbatim>\<open>topology/Graph\<close> is embedded as an arena: the array
  \<^verbatim>\<open>allHalfEdges\<close> is a list of records in creation order and every object reference
  (\<^verbatim>\<open>faceSuccessor\<close>, \<^verbatim>\<open>facePredecessor\<close>, \<^verbatim>\<open>edgeMate\<close>, \<^verbatim>\<open>prevZ\<close>, \<^verbatim>\<open>nextZ\<close>) is an index
  into that list. A JavaScript reference cannot dangle, so an index below the length of
  the list is a representation invariant of the embedding. JavaScript numbers are
  modelled as exact reals: the comparisons of the source are kept as they are written
  and rounding is not modelled. The fields \<^verbatim>\<open>x y z i\<close> are named \<open>xc yc zc idx\<close> and the
  field \<^verbatim>\<open>zOrder\<close> is named \<open>zKey\<close>.
\<close>

record halfedge =
  xc :: real
  yc :: real
  zc :: real
  idx :: int
  maskBits :: int
  steiner :: bool
  faceSuccessor :: nat
  facePredecessor :: nat
  edgeMate :: "nat option"
  zKey :: "int option"
  prevZ :: "nat option"
  nextZ :: "nat option"

type_synonym graph = "halfedge list"

text \<open>
  Every loop of the source that walks pointers is a recursion on a fuel counter; running
  out of fuel is the error value \<open>OutOfFuel\<close>, reading a property of \<^verbatim>\<open>undefined\<close> is
  \<open>TypeError\<close>.
\<close>

datatype error = TypeError | OutOfFuel

definition bindE :: "error + 'a \<Rightarrow> ('a \<Rightarrow> error + 'b) \<Rightarrow> error + 'b" where
  "bindE m f = (case m of Inl e \<Rightarrow> Inl e | Inr v \<Rightarrow> f v)"

definition EXTERIOR :: int where "EXTERIOR = 1"
definition BOUNDARY :: int where "BOUNDARY = 2"
definition PRIMARY_EDGE :: int where "PRIMARY_EDGE = 512"
definition VISITED :: int where "VISITED = 8192"
definition TRIANGULATED_NODE_MASK :: int where "TRIANGULATED_NODE_MASK = 16384"

abbreviation fsucc :: "graph \<Rightarrow> nat \<Rightarrow> nat" where
  "fsucc g n \<equiv> faceSuccessor (g ! n)"

abbreviation fpred :: "graph \<Rightarrow> nat \<Rightarrow> nat" where
  "fpred g n \<equiv> facePredecessor (g ! n)"

subsection \<open>The graph primitives\<close>

text \<open>
  Modelled from the spec: the class \<^verbatim>\<open>HalfEdge\<close> and the container \<^verbatim>\<open>HalfEdgeGraph\<close>
  (\<^verbatim>\<open>topology/Graph\<close>) are used by the triangulator and by the search but are not among
  the source files. The definitions of this subsection follow section 4.1 of the
  specification and the way \<^verbatim>\<open>Triangulation.js\<close> and \<^verbatim>\<open>HalfEdgeGraphSearch.js\<close> call them.

  Masks: set, clear and test a flag on one half-edge, on every half-edge of a face, and
  on the whole graph.
\<close>

definition isMaskSet :: "graph \<Rightarrow> nat \<Rightarrow> int \<Rightarrow> bool" where
  "isMaskSet g n m = (maskBits (g ! n) AND m \<noteq> 0)"

definition setMask :: "nat \<Rightarrow> int \<Rightarrow> graph \<Rightarrow> graph" where
  "setMask n m g = g[n := (g ! n)\<lparr>maskBits := maskBits (g ! n) OR m\<rparr>]"

definition clearMask :: "nat \<Rightarrow> int \<Rightarrow> graph \<Rightarrow> graph" where
  "clearMask n m g = g[n := (g ! n)\<lparr>maskBits := maskBits (g ! n) AND NOT m\<rparr>]"

definition graphClearMask :: "int \<Rightarrow> graph \<Rightarrow> graph" where
  "graphClearMask m g = map (\<lambda>h. h\<lparr>maskBits := maskBits h AND NOT m\<rparr>) g"

primrec setMaskWalk :: "nat \<Rightarrow> nat \<Rightarrow> nat \<Rightarrow> int \<Rightarrow> graph \<Rightarrow> error + graph" where
  "setMaskWalk 0 seed n m g = Inl OutOfFuel"
| "setMaskWalk (Suc k) seed n m g =
     (let g1 = setMask n m g in
      if fsucc g1 n = seed then Inr g1 else setMaskWalk k seed (fsucc g1 n) m g1)"

definition setMaskAroundFace :: "nat \<Rightarrow> nat \<Rightarrow> int \<Rightarrow> graph \<Rightarrow> error + graph" where
  "setMaskAroundFace fuel seed m g = setMaskWalk fuel seed seed m g"

primrec clearMaskWalk :: "nat \<Rightarrow> nat \<Rightarrow> nat \<Rightarrow> int \<Rightarrow> graph \<Rightarrow> error + graph" where
  "clearMaskWalk 0 seed n m g = Inl OutOfFuel"
| "clearMaskWalk (Suc k) seed n m g =
     (let g1 = clearMask n m g in
      if fsucc g1 n = seed then Inr g1 else clearMaskWalk k seed (fsucc g1 n) m g1)"

definition clearMaskAroundFace :: "nat \<Rightarrow> nat \<Rightarrow> int \<Rightarrow> graph \<Rightarrow> error + graph" where
  "clearMaskAroundFace fuel seed m g = clearMaskWalk fuel seed seed m g"

text \<open>
  \<^verbatim>\<open>pinch(a, b)\<close> exchanges the vertex-successor links rooted at \<open>a\<close> and \<open>b\<close>. The vertex
  successor is predecessor-then-mate and the mates do not change, so the exchange swaps
  the two face predecessors and keeps the successor fields inverse to them.
\<close>

definition pinch :: "nat \<Rightarrow> nat \<Rightarrow> graph \<Rightarrow> graph" where
  "pinch a b g =
     (if a = b then g
      else let predA = fpred g a; predB = fpred g b;
               g1 = g[b := (g ! b)\<lparr>facePredecessor := predA\<rparr>];
               g2 = g1[a := (g1 ! a)\<lparr>facePredecessor := predB\<rparr>];
               g3 = g2[predB := (g2 ! predB)\<lparr>faceSuccessor := a\<rparr>]
           in g3[predA := (g3 ! predA)\<lparr>faceSuccessor := b\<rparr>])"

text \<open>
  A new half-edge carries no mask, no steiner flag and no Z-order data.
\<close>

definition newHalfEdge :: "real \<Rightarrow> real \<Rightarrow> real \<Rightarrow> int \<Rightarrow> nat \<Rightarrow> nat \<Rightarrow> nat \<Rightarrow> halfedge" where
  "newHalfEdge x y z i s p m =
     \<lparr>xc = x, yc = y, zc = z, idx = i, maskBits = 0, steiner = False,
      faceSuccessor = s, facePredecessor = p, edgeMate = Some m,
      zKey = None, prevZ = None, nextZ = None\<rparr>"

text \<open>
  \<^verbatim>\<open>createEdgeXYZXYZ\<close> allocates a mated pair for a new undirected edge: the two
  half-edges form the face loop around the isolated edge (the successor of the A side is
  the B side, as \<^verbatim>\<open>splitPolygon\<close> reads it) and the A side is returned.
\<close>

definition createEdgeXYZXYZ ::
  "real \<Rightarrow> real \<Rightarrow> real \<Rightarrow> int \<Rightarrow> real \<Rightarrow> real \<Rightarrow> real \<Rightarrow> int \<Rightarrow> graph \<Rightarrow> nat \<times> graph" where
  "createEdgeXYZXYZ xA yA zA iA xB yB zB iB g =
     (let a = length g; b = Suc (length g)
      in (a, g @ [newHalfEdge xA yA zA iA b b b, newHalfEdge xB yB zB iB a a a]))"

text \<open>
  \<^verbatim>\<open>splitEdge(base, x, y, z)\<close> inserts a vertex in the middle of the edge at \<open>base\<close>: the
  new pair is \<open>newA\<close> (forward side, returned) and \<open>newB\<close>; \<open>base\<close> now ends at the new
  vertex and is followed by \<open>newA\<close>, the old mate of \<open>base\<close> is followed by \<open>newB\<close>, and the
  mates are exchanged so that every half-edge is again paired with the half-edge running
  the other way. Without a base it starts a one-vertex loop.
\<close>

definition setFaceLinks :: "nat \<Rightarrow> nat \<Rightarrow> graph \<Rightarrow> graph" where
  "setFaceLinks a b g =
     (let g1 = g[a := (g ! a)\<lparr>faceSuccessor := b\<rparr>] in g1[b := (g1 ! b)\<lparr>facePredecessor := a\<rparr>])"

definition setEdgeMates :: "nat \<Rightarrow> nat \<Rightarrow> graph \<Rightarrow> graph" where
  "setEdgeMates a b g =
     (let g1 = g[a := (g ! a)\<lparr>edgeMate := Some b\<rparr>] in g1[b := (g1 ! b)\<lparr>edgeMate := Some a\<rparr>])"

definition splitEdge :: "nat option \<Rightarrow> real \<Rightarrow> real \<Rightarrow> real \<Rightarrow> graph \<Rightarrow> error + (nat \<times> graph)" where
  "splitEdge base x y z g =
     (let newA = length g; newB = Suc (length g);
          g0 = g @ [newHalfEdge x y z 0 newA newA newB, newHalfEdge x y z 0 newB newB newA]
      in case base of
           None \<Rightarrow> Inr (newA, g0)
         | Some b \<Rightarrow>
             (case edgeMate (g0 ! b) of
                None \<Rightarrow> Inl TypeError
              | Some mateA \<Rightarrow>
                  let nextA = fsucc g0 b; vpredA = fsucc g0 mateA;
                      g1 = setFaceLinks newA nextA g0;
                      g2 = setFaceLinks b newA g1;
                      g3 = setFaceLinks mateA newB g2;
                      g4 = setFaceLinks newB vpredA g3;
                      g5 = setEdgeMates newA mateA g4
                  in Inr (newA, setEdgeMates newB b g5)))"

text \<open>
  \<^verbatim>\<open>vertexSuccessor\<close> is predecessor-then-mate.
\<close>

definition vertexSuccessor :: "graph \<Rightarrow> nat \<Rightarrow> nat option" where
  "vertexSuccessor g n = edgeMate (g ! fpred g n)"

text \<open>
  \<^verbatim>\<open>signedFaceArea\<close>: the signed area of the face loop, as a sum of trapezoids; it is
  positive for a counter-clockwise loop.
\<close>

primrec faceAreaWalk :: "nat \<Rightarrow> graph \<Rightarrow> nat \<Rightarrow> nat \<Rightarrow> real \<Rightarrow> error + real" where
  "faceAreaWalk 0 g seed n acc = Inl OutOfFuel"
| "faceAreaWalk (Suc k) g seed n acc =
     (let n1 = fsucc g n;
          acc1 = acc + (xc (g ! n) - xc (g ! n1)) * (yc (g ! n) + yc (g ! n1))
      in if n1 = seed then Inr (1 / 2 * acc1) else faceAreaWalk k g seed n1 acc1)"

definition signedFaceArea :: "nat \<Rightarrow> graph \<Rightarrow> nat \<Rightarrow> error + real" where
  "signedFaceArea fuel g n = faceAreaWalk fuel g n n 0"

section \<open>Triangulation.js: predicates on coordinates\<close>

definition signedTriangleArea :: "halfedge \<Rightarrow> halfedge \<Rightarrow> halfedge \<Rightarrow> real" where
  "signedTriangleArea p q r =
     1 / 2 * ((yc q - yc p) * (xc r - xc q) - (xc q - xc p) * (yc r - yc q))"

definition pointInTriangle ::
  "real \<Rightarrow> real \<Rightarrow> real \<Rightarrow> real \<Rightarrow> real \<Rightarrow> real \<Rightarrow> real \<Rightarrow> real \<Rightarrow> bool" where
  "pointInTriangle ax ay bx by cx cy px py =
     ((cx - px) * (ay - py) - (ax - px) * (cy - py) \<ge> 0 \<and>
      (ax - px) * (by - py) - (bx - px) * (ay - py) \<ge> 0 \<and>
      (bx - px) * (cy - py) - (cx - px) * (by - py) \<ge> 0)"

text \<open>\<^verbatim>\<open>Geometry.smallMetricDistance\<close> is \<^verbatim>\<open>1.0e-6\<close>.\<close>

definition smallMetricDistance :: real where
  "smallMetricDistance = 1 / 1000000"

definition isSameCoordinate :: "real \<Rightarrow> real \<Rightarrow> bool" where
  "isSameCoordinate a b = (\<bar>a - b\<bar> < smallMetricDistance)"

text \<open>
  \<^verbatim>\<open>equalXAndY\<close> is called on half-edges and on input points; it takes the two coordinate
  pairs, and \<open>xyOf\<close> reads the pair of a half-edge.
\<close>

definition xyOf :: "halfedge \<Rightarrow> real \<times> real" where
  "xyOf h = (xc h, yc h)"

definition equalXAndY :: "real \<times> real \<Rightarrow> real \<times> real \<Rightarrow> bool" where
  "equalXAndY p1 p2 = (isSameCoordinate (fst p1) (fst p2) \<and> isSameCoordinate (snd p1) (snd p2))"

subsection \<open>isEar\<close>

text \<open>
  The scan of \<^verbatim>\<open>isEar\<close> starts two steps after the candidate and stops at its
  predecessor; a loop vertex blocks the ear when it lies in the closed candidate
  triangle and is itself reflex or flat.
\<close>

definition earBlockedBy :: "graph \<Rightarrow> nat \<Rightarrow> nat \<Rightarrow> bool" where
  "earBlockedBy g ear p =
     (let a = g ! fpred g ear; b = g ! ear; c = g ! fsucc g ear in
      pointInTriangle (xc a) (yc a) (xc b) (yc b) (xc c) (yc c) (xc (g ! p)) (yc (g ! p)) \<and>
      signedTriangleArea (g ! fpred g p) (g ! p) (g ! fsucc g p) \<ge> 0)"

primrec isEarScan :: "nat \<Rightarrow> graph \<Rightarrow> nat \<Rightarrow> nat \<Rightarrow> error + bool" where
  "isEarScan 0 g ear p = Inl OutOfFuel"
| "isEarScan (Suc k) g ear p =
     (if p = fpred g ear then Inr True
      else if earBlockedBy g ear p then Inr False
      else isEarScan k g ear (fsucc g p))"

definition isEar :: "nat \<Rightarrow> graph \<Rightarrow> nat \<Rightarrow> error + bool" where
  "isEar fuel g ear =
     (if signedTriangleArea (g ! fpred g ear) (g ! ear) (g ! fsucc g ear) \<ge> 0 then Inr False
      else isEarScan fuel g ear (fsucc g (fsucc g ear)))"

subsection \<open>joinNeighborsOfEar and filterPoints\<close>

text \<open>
  \<^verbatim>\<open>joinNeighborsOfEar\<close>: the new pair \<open>alpha\<close> (at the predecessor's coordinates) and
  \<open>beta\<close> (at the successor's) is created, the ear is unlinked from the Z-order list
  (\<open>unlinkZ\<close>), and
  the two \<^verbatim>\<open>pinch\<close> calls close the face \<open>predecessor, ear, beta\<close> (\<open>joinLinks\<close>), which
  is then marked. The second \<^verbatim>\<open>pinch\<close> reads \<^verbatim>\<open>ear.facePredecessor\<close> after the first one
  has run.
\<close>

definition unlinkZ :: "nat \<Rightarrow> graph \<Rightarrow> graph" where
  "unlinkZ ear g1 =
     (let g2 = (case prevZ (g1 ! ear) of None \<Rightarrow> g1
                | Some pz \<Rightarrow> g1[pz := (g1 ! pz)\<lparr>nextZ := nextZ (g1 ! ear)\<rparr>])
      in (case nextZ (g2 ! ear) of None \<Rightarrow> g2
          | Some nz \<Rightarrow> g2[nz := (g2 ! nz)\<lparr>prevZ := prevZ (g2 ! ear)\<rparr>]))"

definition joinLinks :: "nat \<Rightarrow> graph \<Rightarrow> error + graph" where
  "joinLinks ear g =
     (let a = g ! fpred g ear; c = g ! fsucc g ear;
          (alpha, g1) = createEdgeXYZXYZ (xc a) (yc a) (zc a) (idx a) (xc c) (yc c) (zc c) (idx c) g
      in case edgeMate (g1 ! alpha) of
           None \<Rightarrow> Inl TypeError
         | Some beta \<Rightarrow>
             let g3 = unlinkZ ear g1;
                 g4 = pinch (fsucc g3 ear) beta g3
             in Inr (pinch (fpred g4 ear) alpha g4))"

definition joinNeighborsOfEar :: "nat \<Rightarrow> nat \<Rightarrow> graph \<Rightarrow> error + graph" where
  "joinNeighborsOfEar fuel ear g =
     bindE (joinLinks ear g) (setMaskAroundFace fuel ear TRIANGULATED_NODE_MASK)"

text \<open>
  The test of \<^verbatim>\<open>filterPoints\<close> that decides whether the vertex \<open>p\<close> is cut off.
\<close>

definition filterRemoves :: "graph \<Rightarrow> nat \<Rightarrow> bool" where
  "filterRemoves g p =
     (\<not> steiner (g ! p) \<and>
      (equalXAndY (xyOf (g ! p)) (xyOf (g ! fsucc g p)) \<or>
       signedTriangleArea (g ! fpred g p) (g ! p) (g ! fsucc g p) = 0))"

text \<open>
  The \<^verbatim>\<open>do ... while (again || p !== end)\<close> loop. After a removal \<^verbatim>\<open>again\<close> is true and
  \<open>p = end\<close>, so the loop continues; otherwise it continues while \<open>p\<close> differs from
  \<open>end\<close>. The result is the graph and the returned node (\<open>None\<close> for \<^verbatim>\<open>undefined\<close>).
\<close>

primrec filterLoop :: "nat \<Rightarrow> graph \<Rightarrow> nat \<Rightarrow> nat \<Rightarrow> error + (graph \<times> nat option)" where
  "filterLoop 0 g p e = Inl OutOfFuel"
| "filterLoop (Suc k) g p e =
     (if filterRemoves g p
      then bindE (joinNeighborsOfEar k p g)
             (\<lambda>g1. let p1 = fpred g1 p in
                    if p1 = fsucc g1 p1 then Inr (g1, None) else filterLoop k g1 p1 p1)
      else let p1 = fsucc g p in
           if p1 \<noteq> e then filterLoop k g p1 e else Inr (g, Some e))"

definition filterPoints ::
  "nat \<Rightarrow> graph \<Rightarrow> nat option \<Rightarrow> nat option \<Rightarrow> error + (graph \<times> nat option)" where
  "filterPoints fuel g start e =
     (case start of
        None \<Rightarrow> Inr (g, None)
      | Some s \<Rightarrow> filterLoop fuel g s (case e of None \<Rightarrow> s | Some e' \<Rightarrow> e'))"

subsection \<open>The flip cleanup\<close>

definition tripleProduct ::
  "real \<Rightarrow> real \<Rightarrow> real \<Rightarrow> real \<Rightarrow> real \<Rightarrow> real \<Rightarrow> real \<Rightarrow> real \<Rightarrow> real \<Rightarrow> real" where
  "tripleProduct ux uy uz vx vy vz wx wy wz =
     ux * (vy * wz - vz * wy) + uy * (vz * wx - vx * wz) + uz * (vx * wy - vy * wx)"

text \<open>
  \<^verbatim>\<open>computeInCircleDeterminant\<close>: \<open>Inr None\<close> is the result \<^verbatim>\<open>undefined\<close>; without an edge
  mate the source fails on \<^verbatim>\<open>nodeB.faceSuccessor\<close>.
\<close>

definition computeInCircleDeterminant :: "graph \<Rightarrow> nat \<Rightarrow> error + real option" where
  "computeInCircleDeterminant g nodeA =
     (let nodeA1 = fsucc g nodeA; nodeA2 = fsucc g nodeA1 in
      if fsucc g nodeA2 \<noteq> nodeA then Inr None
      else case edgeMate (g ! nodeA) of
             None \<Rightarrow> Inl TypeError
           | Some nodeB \<Rightarrow>
               let nodeB1 = fsucc g nodeB; nodeB2 = fsucc g nodeB1 in
               if fsucc g nodeB2 \<noteq> nodeB then Inr None
               else let ux = xc (g ! nodeA1) - xc (g ! nodeA);
                        uy = yc (g ! nodeA1) - yc (g ! nodeA);
                        vx = xc (g ! nodeA2) - xc (g ! nodeA);
                        vy = yc (g ! nodeA2) - yc (g ! nodeA);
                        wx = xc (g ! nodeB2) - xc (g ! nodeA);
                        wy = yc (g ! nodeB2) - yc (g ! nodeA)
                    in Inr (Some (tripleProduct wx wy (wx * wx + wy * wy)
                                    vx vy (vx * vx + vy * vy) ux uy (ux * ux + uy * uy))))"

definition flipTriangles :: "nat \<Rightarrow> nat \<Rightarrow> nat \<Rightarrow> nat \<Rightarrow> nat \<Rightarrow> nat \<Rightarrow> graph \<Rightarrow> graph" where
  "flipTriangles a b c d e f g =
     (let g1 = pinch a e g;
          g2 = pinch c d g1;
          g3 = pinch f c g2;
          g4 = pinch e b g3;
          g5 = g4[e := (g4 ! e)\<lparr>xc := xc (g4 ! b), yc := yc (g4 ! b), zc := zc (g4 ! b),
                                  idx := idx (g4 ! b)\<rparr>]
      in g5[c := (g5 ! c)\<lparr>idx := idx (g5 ! f), xc := xc (g5 ! f), yc := yc (g5 ! f),
                             zc := zc (g5 ! f)\<rparr>])"

text \<open>
  The test of \<^verbatim>\<open>cleanupTriangulation\<close> under which the edge at \<open>node\<close> is flipped, and the
  flip with the four \<^verbatim>\<open>clearMask\<close> calls before it.
\<close>

definition flipWanted :: "real option \<Rightarrow> bool" where
  "flipWanted incircle = (case incircle of None \<Rightarrow> False | Some d \<Rightarrow> d > 0)"

definition cleanupFlip :: "nat \<Rightarrow> nat \<Rightarrow> graph \<Rightarrow> graph" where
  "cleanupFlip node mate g =
     (let g1 = clearMask (fpred g node) VISITED g;
          g2 = clearMask (fsucc g1 node) VISITED g1;
          g3 = clearMask (fpred g2 mate) VISITED g2;
          g4 = clearMask (fsucc g3 mate) VISITED g3
      in flipTriangles (fsucc g4 mate) (fpred g4 mate) mate (fsucc g4 node) node (fpred g4 node) g4)"

text \<open>
  One pass through the body of the \<^verbatim>\<open>for\<close> loop, on the state \<open>(graph, i, foundNonVisited)\<close>;
  the index of the result is the index of the next iteration, after \<^verbatim>\<open>i++\<close>. The two
  \<^verbatim>\<open>continue\<close> statements leave the body before the restart test at its end.
\<close>

definition cleanupStep :: "graph \<times> nat \<times> bool \<Rightarrow> error + (graph \<times> nat \<times> bool)" where
  "cleanupStep s =
     (case s of (g, i, found) \<Rightarrow>
        if isMaskSet g i VISITED then Inr (g, Suc i, found)
        else let g1 = setMask i VISITED g in
          case edgeMate (g1 ! i) of
            None \<Rightarrow> Inr (g1, Suc i, found)
          | Some mate \<Rightarrow>
              if isMaskSet g1 i EXTERIOR \<or> isMaskSet g1 i PRIMARY_EDGE then Inr (g1, Suc i, found)
              else bindE (computeInCircleDeterminant g1 i)
                     (\<lambda>incircle.
                        let g2 = (if flipWanted incircle then cleanupFlip i mate g1 else g1) in
                        if int i = int (length g2) - 1 then Inr (g2, 0, False)
                        else Inr (g2, Suc i, True)))"

primrec cleanupLoop :: "nat \<Rightarrow> graph \<times> nat \<times> bool \<Rightarrow> error + graph" where
  "cleanupLoop 0 s = Inl OutOfFuel"
| "cleanupLoop (Suc k) s =
     (if fst (snd s) < length (fst s) then bindE (cleanupStep s) (cleanupLoop k)
      else Inr (fst s))"

definition cleanupTriangulation :: "nat \<Rightarrow> graph \<Rightarrow> error + graph" where
  "cleanupTriangulation fuel g =
     bindE (cleanupLoop fuel (graphClearMask VISITED g, 0, False))
       (\<lambda>g1. Inr (graphClearMask VISITED g1))"

subsection \<open>Face-loop construction\<close>

text \<open>
  An input point is a pair \<open>(x, y)\<close>; it has no \<^verbatim>\<open>z\<close> property, so \<^verbatim>\<open>interiorEdgeSplit\<close>
  uses \<open>z = 0\<close>.
\<close>

definition interiorEdgeSplit ::
  "nat option \<Rightarrow> real \<times> real \<Rightarrow> graph \<Rightarrow> error + (nat \<times> graph)" where
  "interiorEdgeSplit baseNode xy g =
     (case baseNode of
        None \<Rightarrow> splitEdge None (fst xy) (snd xy) 0 g
      | Some b \<Rightarrow>
          if equalXAndY (xyOf (g ! b)) xy then Inr (b, g)
          else if equalXAndY (xyOf (g ! fsucc g b)) xy then Inr (b, g)
          else splitEdge (Some b) (fst xy) (snd xy) 0 g)"

primrec directCreateFaceLoopFromXAndYArray ::
  "(real \<times> real) list \<Rightarrow> nat option \<Rightarrow> graph \<Rightarrow> error + (nat option \<times> graph)" where
  "directCreateFaceLoopFromXAndYArray [] baseNode g = Inr (baseNode, g)"
| "directCreateFaceLoopFromXAndYArray (xy # rest) baseNode g =
     bindE (interiorEdgeSplit baseNode xy g)
       (\<lambda>r. directCreateFaceLoopFromXAndYArray rest (Some (fst r)) (snd r))"

definition assignMasksToNewFaceLoop ::
  "nat \<Rightarrow> nat option \<Rightarrow> bool \<Rightarrow> bool \<Rightarrow> graph \<Rightarrow> error + (nat option \<times> graph)" where
  "assignMasksToNewFaceLoop fuel base0 returnPositiveAreaLoop markExterior g =
     (case base0 of
        None \<Rightarrow> Inr (None, g)
      | Some b0 \<Rightarrow>
          let base = fsucc g b0 in
          bindE (signedFaceArea fuel g base)
            (\<lambda>area. case edgeMate (g ! base) of
                       None \<Rightarrow> Inl TypeError
                     | Some mate \<Rightarrow>
                         bindE (setMaskAroundFace fuel base (BOUNDARY OR PRIMARY_EDGE) g)
                           (\<lambda>g1. bindE (setMaskAroundFace fuel mate (BOUNDARY OR PRIMARY_EDGE) g1)
                              (\<lambda>g2. let preferredNode =
                                           (if returnPositiveAreaLoop = (area < 0) then mate else base)
                                     in if markExterior
                                        then (case vertexSuccessor g2 preferredNode of
                                                None \<Rightarrow> Inl TypeError
                                              | Some otherNode \<Rightarrow>
                                                  bindE (setMaskAroundFace fuel otherNode EXTERIOR g2)
                                                    (\<lambda>g3. Inr (Some preferredNode, g3)))
                                        else Inr (Some preferredNode, g2)))))"

definition createFaceLoopFromXAndYArray ::
  "nat \<Rightarrow> (real \<times> real) list \<Rightarrow> bool \<Rightarrow> bool \<Rightarrow> graph \<Rightarrow> error + (nat option \<times> graph)" where
  "createFaceLoopFromXAndYArray fuel data returnPositiveAreaLoop markExterior g =
     bindE (directCreateFaceLoopFromXAndYArray data None g)
       (\<lambda>r. assignMasksToNewFaceLoop fuel (fst r) returnPositiveAreaLoop markExterior (snd r))"

subsection \<open>Hole incorporation\<close>

primrec leftmostWalk :: "nat \<Rightarrow> graph \<Rightarrow> nat \<Rightarrow> nat \<Rightarrow> nat \<Rightarrow> error + nat" where
  "leftmostWalk 0 g start p leftmost = Inl OutOfFuel"
| "leftmostWalk (Suc k) g start p leftmost =
     (let leftmost1 = (if xc (g ! p) < xc (g ! leftmost) then p else leftmost) in
      if fsucc g p = start then Inr leftmost1 else leftmostWalk k g start (fsucc g p) leftmost1)"

text \<open>
  \<^verbatim>\<open>getLeftmost(start)\<close> reads \<^verbatim>\<open>p.x\<close> at once, so it fails on \<^verbatim>\<open>undefined\<close>.
\<close>

definition getLeftmost :: "nat \<Rightarrow> graph \<Rightarrow> nat option \<Rightarrow> error + nat" where
  "getLeftmost fuel g start =
     (case start of None \<Rightarrow> Inl TypeError | Some s \<Rightarrow> leftmostWalk fuel g s s s)"

definition locallyInside :: "graph \<Rightarrow> nat \<Rightarrow> nat \<Rightarrow> bool" where
  "locallyInside g a b =
     (if signedTriangleArea (g ! fpred g a) (g ! a) (g ! fsucc g a) < 0
      then signedTriangleArea (g ! a) (g ! b) (g ! fsucc g a) \<ge> 0 \<and>
           signedTriangleArea (g ! a) (g ! fpred g a) (g ! b) \<ge> 0
      else signedTriangleArea (g ! a) (g ! b) (g ! fpred g a) < 0 \<or>
           signedTriangleArea (g ! a) (g ! fsucc g a) (g ! b) < 0)"

definition splitPolygon :: "nat \<Rightarrow> nat \<Rightarrow> graph \<Rightarrow> nat \<times> graph" where
  "splitPolygon a b g =
     (let (a2, g1) = createEdgeXYZXYZ (xc (g ! a)) (yc (g ! a)) (zc (g ! a)) (idx (g ! a))
                       (xc (g ! b)) (yc (g ! b)) (zc (g ! b)) (idx (g ! b)) g;
          b2 = fsucc g1 a2;
          g2 = pinch a a2 g1
      in (a2, pinch b b2 g2))"

text \<open>
  The first loop of \<^verbatim>\<open>findHoleBridge\<close>. The variables \<^verbatim>\<open>qx\<close> and \<^verbatim>\<open>m\<close> are assigned
  together, so the state is one option: \<open>None\<close> is \<^verbatim>\<open>qx = -Infinity\<close> with \<^verbatim>\<open>m\<close> undefined.
  The result \<open>Inl n\<close> is an early \<^verbatim>\<open>return n\<close>, \<open>Inr qm\<close> the state after the loop.
\<close>

primrec bridgeScan ::
  "nat \<Rightarrow> graph \<Rightarrow> real \<Rightarrow> real \<Rightarrow> nat \<Rightarrow> nat \<Rightarrow> (real \<times> nat) option \<Rightarrow>
   error + (nat + (real \<times> nat) option)" where
  "bridgeScan 0 g hx hy outerNode p qm = Inl OutOfFuel"
| "bridgeScan (Suc k) g hx hy outerNode p qm =
     (let s = fsucc g p;
          x = xc (g ! p) + (hy - yc (g ! p)) * (xc (g ! s) - xc (g ! p)) / (yc (g ! s) - yc (g ! p));
          hit = (hy \<le> yc (g ! p) \<and> hy \<ge> yc (g ! s) \<and> yc (g ! s) \<noteq> yc (g ! p) \<and>
                 x \<le> hx \<and> (case qm of None \<Rightarrow> True | Some (qx, m) \<Rightarrow> x > qx))
      in if hit \<and> x = hx \<and> hy = yc (g ! p) then Inr (Inl p)
         else if hit \<and> x = hx \<and> hy = yc (g ! s) then Inr (Inl s)
         else let qm1 = (if hit then Some (x, if xc (g ! p) < xc (g ! s) then p else s) else qm)
              in if s = outerNode then Inr (Inr qm1)
                 else bridgeScan k g hx hy outerNode s qm1)"

text \<open>
  The second loop: \<open>m0\<close> is the stop node, whose coordinates \<open>mx, my\<close> stay fixed, \<open>m\<close> is
  the current choice and \<open>tanMin = None\<close> is \<^verbatim>\<open>Infinity\<close>.
\<close>

definition bridgeCandidate :: "graph \<Rightarrow> real \<Rightarrow> real \<Rightarrow> real \<Rightarrow> nat \<Rightarrow> nat \<Rightarrow> bool" where
  "bridgeCandidate g hx hy qx m0 p =
     (let mx = xc (g ! m0); my = yc (g ! m0) in
      hx \<ge> xc (g ! p) \<and> xc (g ! p) \<ge> mx \<and> hx \<noteq> xc (g ! p) \<and>
      pointInTriangle (if hy < my then hx else qx) hy mx my (if hy < my then qx else hx) hy
        (xc (g ! p)) (yc (g ! p)))"

definition bridgeTan :: "graph \<Rightarrow> real \<Rightarrow> real \<Rightarrow> nat \<Rightarrow> real" where
  "bridgeTan g hx hy p = \<bar>hy - yc (g ! p)\<bar> / (hx - xc (g ! p))"

definition bridgeBetter :: "graph \<Rightarrow> real \<Rightarrow> real \<Rightarrow> nat \<Rightarrow> real option \<Rightarrow> nat \<Rightarrow> bool" where
  "bridgeBetter g hx hy m tanMin p =
     (case tanMin of
        None \<Rightarrow> True
      | Some t \<Rightarrow> bridgeTan g hx hy p < t \<or> (bridgeTan g hx hy p = t \<and> xc (g ! p) > xc (g ! m)))"

primrec bridgeSelect ::
  "nat \<Rightarrow> graph \<Rightarrow> nat \<Rightarrow> real \<Rightarrow> real \<Rightarrow> real \<Rightarrow> nat \<Rightarrow> nat \<Rightarrow> nat \<Rightarrow> real option \<Rightarrow> error + nat" where
  "bridgeSelect 0 g hole hx hy qx m0 p m tanMin = Inl OutOfFuel"
| "bridgeSelect (Suc k) g hole hx hy qx m0 p m tanMin =
     (if p = m0 then Inr m
      else if bridgeCandidate g hx hy qx m0 p \<and> bridgeBetter g hx hy m tanMin p \<and>
              locallyInside g p hole
           then bridgeSelect k g hole hx hy qx m0 (fsucc g p) p (Some (bridgeTan g hx hy p))
           else bridgeSelect k g hole hx hy qx m0 (fsucc g p) m tanMin)"

definition findHoleBridge :: "nat \<Rightarrow> graph \<Rightarrow> nat \<Rightarrow> nat option \<Rightarrow> error + nat option" where
  "findHoleBridge fuel g hole outerNode =
     (case outerNode of
        None \<Rightarrow> Inr None
      | Some outer \<Rightarrow>
          let hx = xc (g ! hole); hy = yc (g ! hole) in
          bindE (bridgeScan fuel g hx hy outer outer None)
            (\<lambda>r. case r of
                    Inl n \<Rightarrow> Inr (Some n)
                  | Inr None \<Rightarrow> Inr None
                  | Inr (Some (qx, m0)) \<Rightarrow>
                      if hx = qx then Inr (Some (fpred g m0))
                      else bindE (bridgeSelect fuel g hole hx hy qx m0 (fsucc g m0) m0 None)
                             (\<lambda>n. Inr (Some n))))"

definition eliminateHole :: "nat \<Rightarrow> nat \<Rightarrow> nat option \<Rightarrow> bool \<Rightarrow> graph \<Rightarrow> error + graph" where
  "eliminateHole fuel hole outerNode applyFilter g =
     bindE (findHoleBridge fuel g hole outerNode)
       (\<lambda>bridge. case bridge of
                    None \<Rightarrow> Inr g
                  | Some outer \<Rightarrow>
                      let (b, g1) = splitPolygon outer hole g in
                      if applyFilter
                      then bindE (filterPoints fuel g1 (Some b) (Some (fsucc g1 b))) (\<lambda>r. Inr (fst r))
                      else Inr g1)"

primrec spliceHoles ::
  "nat \<Rightarrow> nat list \<Rightarrow> bool \<Rightarrow> nat option \<Rightarrow> graph \<Rightarrow> error + (nat option \<times> graph)" where
  "spliceHoles fuel [] applyFilter outerNode g = Inr (outerNode, g)"
| "spliceHoles fuel (holeStart # rest) applyFilter outerNode g =
     bindE (eliminateHole fuel holeStart outerNode applyFilter g)
       (\<lambda>g1. if applyFilter
              then bindE (filterPoints fuel g1 outerNode
                            (case outerNode of None \<Rightarrow> None | Some n \<Rightarrow> Some (fsucc g1 n)))
                     (\<lambda>r. spliceHoles fuel rest applyFilter (snd r) (fst r))
              else spliceHoles fuel rest applyFilter outerNode g1)"

text \<open>
  \<^verbatim>\<open>spliceLeftMostNodesOfHoles\<close> sorts the hole nodes with \<^verbatim>\<open>compareX\<close>; the sort is taken
  to be stable.
\<close>

definition spliceLeftMostNodesOfHoles ::
  "nat \<Rightarrow> nat option \<Rightarrow> nat list \<Rightarrow> bool \<Rightarrow> graph \<Rightarrow> error + (nat option \<times> graph)" where
  "spliceLeftMostNodesOfHoles fuel outerNode leftMostHoleLoopNode applyFilter g =
     spliceHoles fuel (sort_key (\<lambda>n. xc (g ! n)) leftMostHoleLoopNode) applyFilter outerNode g"

text \<open>
  The loop of \<^verbatim>\<open>constructAndSpliceHoles\<close> over the hole loops: the steiner flag is set on a
  one-node loop, and \<^verbatim>\<open>getLeftmost(list)\<close> is called without a test of \<open>list\<close>.
\<close>

primrec constructHoles ::
  "nat \<Rightarrow> (real \<times> real) list list \<Rightarrow> nat list \<Rightarrow> graph \<Rightarrow> error + (nat list \<times> graph)" where
  "constructHoles fuel [] queue g = Inr (queue, g)"
| "constructHoles fuel (hole # rest) queue g =
     bindE (createFaceLoopFromXAndYArray fuel hole False True g)
       (\<lambda>r. let g1 = (case fst r of
                         None \<Rightarrow> snd r
                       | Some l \<Rightarrow> if l = fsucc (snd r) l
                                   then (snd r)[l := (snd r ! l)\<lparr>steiner := True\<rparr>] else snd r)
             in bindE (getLeftmost fuel g1 (fst r))
                  (\<lambda>lm. constructHoles fuel rest (queue @ [lm]) g1))"

definition constructAndSpliceHoles ::
  "nat \<Rightarrow> (real \<times> real) list list \<Rightarrow> nat option \<Rightarrow> graph \<Rightarrow> error + (nat option \<times> graph)" where
  "constructAndSpliceHoles fuel loops outerNode g =
     bindE (constructHoles fuel (tl loops) [] g)
       (\<lambda>r. spliceLeftMostNodesOfHoles fuel outerNode (fst r) True (snd r))"

subsection \<open>Z-order acceleration\<close>

text \<open>
  The bit operators of JavaScript work on the 32-bit integer of their operand:
  \<open>toInt32\<close> truncates toward zero and wraps, \<open>wrap32\<close> wraps an integer. The four
  shift-and-mask lines of \<^verbatim>\<open>zOrder\<close> are the same for \<^verbatim>\<open>x\<close> and \<^verbatim>\<open>y\<close>; every mask has bit
  31 clear, so the unbounded integer operations agree with the 32-bit ones. The masks are
  \<^verbatim>\<open>0x00FF00FF\<close>, \<^verbatim>\<open>0x0F0F0F0F\<close>, \<^verbatim>\<open>0x33333333\<close> and \<^verbatim>\<open>0x55555555\<close>.
\<close>

definition wrap32 :: "int \<Rightarrow> int" where
  "wrap32 v = (v + 2147483648) mod 4294967296 - 2147483648"

definition toInt32 :: "real \<Rightarrow> int" where
  "toInt32 r = wrap32 (if r \<ge> 0 then \<lfloor>r\<rfloor> else \<lceil>r\<rceil>)"

definition zSpread :: "int \<Rightarrow> int" where
  "zSpread v0 =
     (let v1 = (v0 OR push_bit 8 v0) AND 16711935;
          v2 = (v1 OR push_bit 4 v1) AND 252645135;
          v3 = (v2 OR push_bit 2 v2) AND 858993459
      in (v3 OR push_bit 1 v3) AND 1431655765)"

definition zOrder :: "real \<Rightarrow> real \<Rightarrow> real \<Rightarrow> real \<Rightarrow> real \<Rightarrow> int" where
  "zOrder x y minX minY sz =
     (let x1 = zSpread (toInt32 (32767 * (x - minX) / sz));
          y1 = zSpread (toInt32 (32767 * (y - minY) / sz))
      in wrap32 (x1 OR push_bit 1 y1))"

text \<open>
  A comparison with an undefined \<^verbatim>\<open>zOrder\<close> is false.
\<close>

definition zLeq :: "int option \<Rightarrow> int option \<Rightarrow> bool" where
  "zLeq a b = (case a of None \<Rightarrow> False | Some u \<Rightarrow> (case b of None \<Rightarrow> False | Some v \<Rightarrow> u \<le> v))"

definition zKeyAt :: "graph \<Rightarrow> nat option \<Rightarrow> int option" where
  "zKeyAt g p = (case p of None \<Rightarrow> None | Some n \<Rightarrow> zKey (g ! n))"

text \<open>
  \<^verbatim>\<open>sortLinked\<close>: the \<^verbatim>\<open>for\<close> loop that advances \<open>q\<close>, the merge loop, the loop over the
  runs of one pass, and the passes with doubled run length.
\<close>

primrec sortAdvance :: "nat \<Rightarrow> graph \<Rightarrow> nat \<Rightarrow> nat \<Rightarrow> nat \<times> nat option" where
  "sortAdvance 0 g q pSize = (pSize, Some q)"
| "sortAdvance (Suc i) g q pSize =
     (case nextZ (g ! q) of
        None \<Rightarrow> (Suc pSize, None)
      | Some q1 \<Rightarrow> sortAdvance i g q1 (Suc pSize))"

primrec sortMerge ::
  "nat \<Rightarrow> graph \<Rightarrow> nat option \<Rightarrow> nat option \<Rightarrow> nat \<Rightarrow> nat \<Rightarrow> nat option \<Rightarrow> nat option \<Rightarrow>
   error + (graph \<times> nat option \<times> nat option \<times> nat option)" where
  "sortMerge 0 g p q pSize qSize tail lst = Inl OutOfFuel"
| "sortMerge (Suc k) g p q pSize qSize tail lst =
     (if pSize > 0 \<or> (qSize > 0 \<and> q \<noteq> None)
      then let fromP = (pSize \<noteq> 0 \<and> (qSize = 0 \<or> q = None \<or> zLeq (zKeyAt g p) (zKeyAt g q)))
           in case (if fromP then p else q) of
                None \<Rightarrow> Inl TypeError
              | Some e \<Rightarrow>
                  let p1 = (if fromP then nextZ (g ! e) else p);
                      q1 = (if fromP then q else nextZ (g ! e));
                      g1 = (case tail of None \<Rightarrow> g | Some t \<Rightarrow> g[t := (g ! t)\<lparr>nextZ := Some e\<rparr>]);
                      lst1 = (case tail of None \<Rightarrow> Some e | Some t \<Rightarrow> lst);
                      g2 = g1[e := (g1 ! e)\<lparr>prevZ := tail\<rparr>]
                  in sortMerge k g2 p1 q1 (if fromP then pSize - 1 else pSize)
                       (if fromP then qSize else qSize - 1) (Some e) lst1
      else Inr (g, q, tail, lst))"

primrec sortPass ::
  "nat \<Rightarrow> graph \<Rightarrow> nat \<Rightarrow> nat option \<Rightarrow> nat option \<Rightarrow> nat option \<Rightarrow> nat \<Rightarrow>
   error + (graph \<times> nat option \<times> nat option \<times> nat)" where
  "sortPass 0 g inSize p tail lst numMerges = Inl OutOfFuel"
| "sortPass (Suc k) g inSize p tail lst numMerges =
     (case p of
        None \<Rightarrow> Inr (g, tail, lst, numMerges)
      | Some p0 \<Rightarrow>
          let adv = sortAdvance inSize g p0 0 in
          bindE (sortMerge k g (Some p0) (snd adv) (fst adv) inSize tail lst)
            (\<lambda>r. case r of (g1, q1, tail1, lst1) \<Rightarrow>
                    sortPass k g1 inSize q1 tail1 lst1 (Suc numMerges)))"

primrec sortOuter :: "nat \<Rightarrow> graph \<Rightarrow> nat option \<Rightarrow> nat \<Rightarrow> error + (graph \<times> nat option)" where
  "sortOuter 0 g lst inSize = Inl OutOfFuel"
| "sortOuter (Suc k) g lst inSize =
     bindE (sortPass k g inSize lst None None 0)
       (\<lambda>r. case r of (g1, tail, lst1, numMerges) \<Rightarrow>
               (case tail of
                  None \<Rightarrow> Inl TypeError
                | Some t \<Rightarrow>
                    let g2 = g1[t := (g1 ! t)\<lparr>nextZ := None\<rparr>] in
                    if numMerges > 1 then sortOuter k g2 lst1 (inSize * 2) else Inr (g2, lst1)))"

definition sortLinked :: "nat \<Rightarrow> graph \<Rightarrow> nat option \<Rightarrow> error + (graph \<times> nat option)" where
  "sortLinked fuel g lst = sortOuter fuel g lst 1"

text \<open>
  The bounding data \<^verbatim>\<open>minX, minY, size\<close> are assigned together in \<^verbatim>\<open>earcutSingleLoop\<close>
  and passed on together; they are one optional triple, and \<^verbatim>\<open>size\<close> is truthy when
  it is defined and not zero.
\<close>

type_synonym zbox = "(real \<times> real \<times> real) option"

definition hashing :: "zbox \<Rightarrow> bool" where
  "hashing zb = (case zb of None \<Rightarrow> False | Some (minX, minY, sz) \<Rightarrow> sz \<noteq> 0)"

definition zOrderIn :: "zbox \<Rightarrow> real \<Rightarrow> real \<Rightarrow> int" where
  "zOrderIn zb x y = (case zb of None \<Rightarrow> 0 | Some (minX, minY, sz) \<Rightarrow> zOrder x y minX minY sz)"

primrec indexWalk :: "nat \<Rightarrow> graph \<Rightarrow> zbox \<Rightarrow> nat \<Rightarrow> nat \<Rightarrow> error + graph" where
  "indexWalk 0 g zb start p = Inl OutOfFuel"
| "indexWalk (Suc k) g zb start p =
     (let g1 = (if zKey (g ! p) = None
                then g[p := (g ! p)\<lparr>zKey := Some (zOrderIn zb (xc (g ! p)) (yc (g ! p)))\<rparr>] else g);
          g2 = g1[p := (g1 ! p)\<lparr>prevZ := Some (fpred g1 p)\<rparr>];
          g3 = g2[p := (g2 ! p)\<lparr>nextZ := Some (fsucc g2 p)\<rparr>]
      in if fsucc g3 p = start then Inr g3 else indexWalk k g3 zb start (fsucc g3 p))"

definition indexCurve :: "nat \<Rightarrow> graph \<Rightarrow> nat \<Rightarrow> zbox \<Rightarrow> error + graph" where
  "indexCurve fuel g start zb =
     bindE (indexWalk fuel g zb start start)
       (\<lambda>g1. case prevZ (g1 ! start) of
                None \<Rightarrow> Inl TypeError
              | Some pz \<Rightarrow>
                  let g2 = g1[pz := (g1 ! pz)\<lparr>nextZ := None\<rparr>];
                      g3 = g2[start := (g2 ! start)\<lparr>prevZ := None\<rparr>]
                  in bindE (sortLinked fuel g3 (Some start)) (\<lambda>r. Inr (fst r)))"

text \<open>
  The two scans of \<^verbatim>\<open>isEarHashed\<close> along the Z-order list; the result \<open>True\<close> says that a
  blocking vertex was found.
\<close>

primrec hashedScanNext :: "nat \<Rightarrow> graph \<Rightarrow> nat \<Rightarrow> int \<Rightarrow> nat option \<Rightarrow> error + bool" where
  "hashedScanNext 0 g ear maxZ p = Inl OutOfFuel"
| "hashedScanNext (Suc k) g ear maxZ p =
     (case p of
        None \<Rightarrow> Inr False
      | Some n \<Rightarrow>
          if zLeq (zKey (g ! n)) (Some maxZ)
          then if n \<noteq> fpred g ear \<and> n \<noteq> fsucc g ear \<and> earBlockedBy g ear n then Inr True
               else hashedScanNext k g ear maxZ (nextZ (g ! n))
          else Inr False)"

primrec hashedScanPrev :: "nat \<Rightarrow> graph \<Rightarrow> nat \<Rightarrow> int \<Rightarrow> nat option \<Rightarrow> error + bool" where
  "hashedScanPrev 0 g ear minZ p = Inl OutOfFuel"
| "hashedScanPrev (Suc k) g ear minZ p =
     (case p of
        None \<Rightarrow> Inr False
      | Some n \<Rightarrow>
          if zLeq (Some minZ) (zKey (g ! n))
          then if n \<noteq> fpred g ear \<and> n \<noteq> fsucc g ear \<and> earBlockedBy g ear n then Inr True
               else hashedScanPrev k g ear minZ (prevZ (g ! n))
          else Inr False)"

definition isEarHashed :: "nat \<Rightarrow> graph \<Rightarrow> nat \<Rightarrow> zbox \<Rightarrow> error + bool" where
  "isEarHashed fuel g ear zb =
     (let a = g ! fpred g ear; b = g ! ear; c = g ! fsucc g ear in
      if signedTriangleArea a b c \<ge> 0 then Inr False
      else let minTX = (if xc a < xc b then (if xc a < xc c then xc a else xc c)
                        else (if xc b < xc c then xc b else xc c));
               minTY = (if yc a < yc b then (if yc a < yc c then yc a else yc c)
                        else (if yc b < yc c then yc b else yc c));
               maxTX = (if xc a > xc b then (if xc a > xc c then xc a else xc c)
                        else (if xc b > xc c then xc b else xc c));
               maxTY = (if yc a > yc b then (if yc a > yc c then yc a else yc c)
                        else (if yc b > yc c then yc b else yc c));
               minZ = zOrderIn zb minTX minTY;
               maxZ = zOrderIn zb maxTX maxTY
           in bindE (hashedScanNext fuel g ear maxZ (nextZ (g ! ear)))
                (\<lambda>found. if found then Inr False
                          else bindE (hashedScanPrev fuel g ear minZ (prevZ (g ! ear)))
                                 (\<lambda>found2. Inr (\<not> found2))))"

subsection \<open>Recovery of a stuck loop\<close>

definition intersects :: "halfedge \<Rightarrow> halfedge \<Rightarrow> halfedge \<Rightarrow> halfedge \<Rightarrow> bool" where
  "intersects p1 q1 p2 q2 =
     (if (equalXAndY (xyOf p1) (xyOf q1) \<and> equalXAndY (xyOf p2) (xyOf q2)) \<or>
         (equalXAndY (xyOf p1) (xyOf q2) \<and> equalXAndY (xyOf p2) (xyOf q1))
      then True
      else (signedTriangleArea p1 q1 p2 > 0) \<noteq> (signedTriangleArea p1 q1 q2 > 0) \<and>
           (signedTriangleArea p2 q2 p1 > 0) \<noteq> (signedTriangleArea p2 q2 q1 > 0))"

primrec intersectsWalk :: "nat \<Rightarrow> graph \<Rightarrow> nat \<Rightarrow> nat \<Rightarrow> nat \<Rightarrow> error + bool" where
  "intersectsWalk 0 g a b p = Inl OutOfFuel"
| "intersectsWalk (Suc k) g a b p =
     (let s = fsucc g p in
      if idx (g ! p) \<noteq> idx (g ! a) \<and> idx (g ! s) \<noteq> idx (g ! a) \<and>
         idx (g ! p) \<noteq> idx (g ! b) \<and> idx (g ! s) \<noteq> idx (g ! b) \<and>
         intersects (g ! p) (g ! s) (g ! a) (g ! b)
      then Inr True
      else if s = a then Inr False else intersectsWalk k g a b s)"

definition intersectsPolygon :: "nat \<Rightarrow> graph \<Rightarrow> nat \<Rightarrow> nat \<Rightarrow> error + bool" where
  "intersectsPolygon fuel g a b = intersectsWalk fuel g a b a"

primrec middleWalk :: "nat \<Rightarrow> graph \<Rightarrow> nat \<Rightarrow> real \<Rightarrow> real \<Rightarrow> nat \<Rightarrow> bool \<Rightarrow> error + bool" where
  "middleWalk 0 g a px py p inside = Inl OutOfFuel"
| "middleWalk (Suc k) g a px py p inside =
     (let s = fsucc g p;
          inside1 = (if ((yc (g ! p) > py) \<noteq> (yc (g ! s) > py)) \<and> yc (g ! s) \<noteq> yc (g ! p) \<and>
                        px < (xc (g ! s) - xc (g ! p)) * (py - yc (g ! p)) / (yc (g ! s) - yc (g ! p))
                               + xc (g ! p)
                     then \<not> inside else inside)
      in if s = a then Inr inside1 else middleWalk k g a px py s inside1)"

definition middleInside :: "nat \<Rightarrow> graph \<Rightarrow> nat \<Rightarrow> nat \<Rightarrow> error + bool" where
  "middleInside fuel g a b =
     middleWalk fuel g a ((xc (g ! a) + xc (g ! b)) / 2) ((yc (g ! a) + yc (g ! b)) / 2) a False"

definition isValidDiagonal :: "nat \<Rightarrow> graph \<Rightarrow> nat \<Rightarrow> nat \<Rightarrow> error + bool" where
  "isValidDiagonal fuel g a b =
     (if idx (g ! fsucc g a) \<noteq> idx (g ! b) \<and> idx (g ! fpred g a) \<noteq> idx (g ! b)
      then bindE (intersectsPolygon fuel g a b)
             (\<lambda>x. if \<not> x \<and> locallyInside g a b \<and> locallyInside g b a
                   then middleInside fuel g a b else Inr False)
      else Inr False)"

primrec cureLoop :: "nat \<Rightarrow> graph \<Rightarrow> nat \<Rightarrow> nat \<Rightarrow> error + (graph \<times> nat)" where
  "cureLoop 0 g p start = Inl OutOfFuel"
| "cureLoop (Suc k) g p start =
     (let a = fpred g p; b = fsucc g (fsucc g p) in
      if \<not> equalXAndY (xyOf (g ! a)) (xyOf (g ! b)) \<and>
         intersects (g ! a) (g ! p) (g ! fsucc g p) (g ! b) \<and>
         locallyInside g a b \<and> locallyInside g b a
      then bindE (joinNeighborsOfEar k p g)
             (\<lambda>g1. bindE (joinNeighborsOfEar k (fsucc g1 p) g1)
                (\<lambda>g2. if fsucc g2 b = b then Inr (g2, fsucc g2 b)
                       else cureLoop k g2 (fsucc g2 b) b))
      else if fsucc g p = start then Inr (g, fsucc g p)
           else cureLoop k g (fsucc g p) start)"

definition cureLocalIntersections :: "nat \<Rightarrow> graph \<Rightarrow> nat \<Rightarrow> error + (graph \<times> nat)" where
  "cureLocalIntersections fuel g start = cureLoop fuel g start start"

subsection \<open>The ear-clipping loop\<close>

text \<open>
  \<^verbatim>\<open>earcutLinked\<close> and \<^verbatim>\<open>splitEarcut\<close> call each other; every call takes one unit of
  fuel, which is the termination measure. \<open>earcutLoop\<close> is the \<^verbatim>\<open>while\<close> loop of
  \<^verbatim>\<open>earcutLinked\<close> on the state \<open>(ear, stop)\<close>, \<open>splitScan\<close> the two nested loops of
  \<^verbatim>\<open>splitEarcut\<close> on the state \<open>(a, b)\<close>. The argument \<open>pass\<close> is \<open>0\<close> when the source passes
  no \<^verbatim>\<open>pass\<close>.
\<close>

function (sequential) earcutLinked :: "nat \<Rightarrow> graph \<Rightarrow> nat option \<Rightarrow> zbox \<Rightarrow> nat \<Rightarrow> error + graph"
  and earcutLoop :: "nat \<Rightarrow> graph \<Rightarrow> nat \<Rightarrow> nat \<Rightarrow> zbox \<Rightarrow> nat \<Rightarrow> error + graph"
  and splitScan :: "nat \<Rightarrow> graph \<Rightarrow> nat \<Rightarrow> nat \<Rightarrow> nat \<Rightarrow> zbox \<Rightarrow> error + graph" where
  "earcutLinked 0 g ear zb pass = Inl OutOfFuel"
| "earcutLinked (Suc k) g ear zb pass =
     (case ear of
        None \<Rightarrow> Inr g
      | Some e \<Rightarrow>
          bindE (if pass = 0 \<and> hashing zb then indexCurve k g e zb else Inr g)
            (\<lambda>g1. earcutLoop k g1 e e zb pass))"
| "earcutLoop 0 g ear stop zb pass = Inl OutOfFuel"
| "earcutLoop (Suc k) g ear stop zb pass =
     (if isMaskSet g ear TRIANGULATED_NODE_MASK then Inr g
      else let next = fsucc g ear in
        bindE (if hashing zb then isEarHashed k g ear zb else isEar k g ear)
          (\<lambda>isAnEar.
             if isAnEar
             then (if fsucc g (fsucc g ear) \<noteq> fpred g ear
                   then bindE (joinNeighborsOfEar k ear g)
                          (\<lambda>g1. case edgeMate (g1 ! fsucc g1 ear) of
                                   None \<Rightarrow> Inl TypeError
                                 | Some mt \<Rightarrow>
                                     earcutLoop k g1 (fsucc g1 (fsucc g1 mt)) (fsucc g next) zb pass)
                   else let g1 = setMask ear TRIANGULATED_NODE_MASK g;
                            g2 = setMask (fsucc g1 ear) TRIANGULATED_NODE_MASK g1;
                            g3 = setMask (fpred g2 ear) TRIANGULATED_NODE_MASK g2
                        in earcutLoop k g3 (fsucc g3 next) (fsucc g next) zb pass)
             else if next = stop
                  then (if pass = 0
                        then bindE (cureLocalIntersections k g next)
                               (\<lambda>r. earcutLinked k (fst r) (Some (snd r)) zb 2)
                        else if pass = 2 then splitScan k g next next (fsucc g (fsucc g next)) zb
                        else Inr g)
                  else earcutLoop k g next stop zb pass))"
| "splitScan 0 g start a b zb = Inl OutOfFuel"
| "splitScan (Suc k) g start a b zb =
     (if b \<noteq> fpred g a
      then bindE (if idx (g ! a) \<noteq> idx (g ! b) then isValidDiagonal k g a b else Inr False)
             (\<lambda>valid.
                if valid
                then let (c, g1) = splitPolygon a b g in
                     bindE (filterPoints k g1 (Some a) (Some (fsucc g1 a)))
                       (\<lambda>ra. bindE (filterPoints k (fst ra) (Some c) (Some (fsucc (fst ra) c)))
                          (\<lambda>rc. bindE (earcutLinked k (fst rc) (snd ra) zb 0)
                             (\<lambda>g2. earcutLinked k g2 (snd rc) zb 0)))
                else splitScan k g start a (fsucc g b) zb)
      else let a1 = fsucc g a in
           if a1 = start then Inr g else splitScan k g start a1 (fsucc g (fsucc g a1)) zb)"
  by pat_completeness auto

termination
  by (relation "measure (\<lambda>c. case c of Inl (k, _) \<Rightarrow> k | Inr (Inl (k, _)) \<Rightarrow> k
                                     | Inr (Inr (k, _)) \<Rightarrow> k)") auto

definition splitEarcut :: "nat \<Rightarrow> graph \<Rightarrow> nat \<Rightarrow> zbox \<Rightarrow> error + graph" where
  "splitEarcut fuel g start zb = splitScan fuel g start start (fsucc g (fsucc g start)) zb"

subsection \<open>Entry points\<close>

text \<open>
  \<^verbatim>\<open>earcutSingleLoop\<close> starts from a new graph. The bounding box is computed when the
  input has more than 80 points.
\<close>

definition boundingZbox :: "(real \<times> real) list \<Rightarrow> zbox" where
  "boundingZbox data =
     (case data of
        [] \<Rightarrow> None
      | d # ds \<Rightarrow>
          let minX = fold (\<lambda>pt m. if fst pt < m then fst pt else m) ds (fst d);
              minY = fold (\<lambda>pt m. if snd pt < m then snd pt else m) ds (snd d);
              maxX = fold (\<lambda>pt m. if fst pt > m then fst pt else m) ds (fst d);
              maxY = fold (\<lambda>pt m. if snd pt > m then snd pt else m) ds (snd d)
          in Some (minX, minY, max (maxX - minX) (maxY - minY)))"

definition earcutSingleLoop :: "nat \<Rightarrow> (real \<times> real) list \<Rightarrow> error + graph" where
  "earcutSingleLoop fuel data =
     bindE (createFaceLoopFromXAndYArray fuel data True True [])
       (\<lambda>r. case fst r of
               None \<Rightarrow> Inr (snd r)
             | Some startingNode \<Rightarrow>
                 earcutLinked fuel (snd r) (Some startingNode)
                   (if length data > 80 then boundingZbox data else None) 0)"

text \<open>
  \<^verbatim>\<open>earcutOuterAndInnerLoops\<close>: the range that the source accumulates first is not used
  afterwards. With no loop at all \<^verbatim>\<open>loops[0]\<close> is undefined and the loop construction
  fails on it.
\<close>

definition earcutOuterAndInnerLoops :: "nat \<Rightarrow> (real \<times> real) list list \<Rightarrow> error + graph" where
  "earcutOuterAndInnerLoops fuel loops =
     (case loops of
        [] \<Rightarrow> Inl TypeError
      | outer # holes \<Rightarrow>
          bindE (createFaceLoopFromXAndYArray fuel outer True True [])
            (\<lambda>r. case fst r of
                    None \<Rightarrow> Inr (snd r)
                  | Some startingNode \<Rightarrow>
                      bindE (if length loops > 1
                             then constructAndSpliceHoles fuel loops (Some startingNode) (snd r)
                             else Inr (Some startingNode, snd r))
                        (\<lambda>r2. earcutLinked fuel (snd r2) (fst r2) None 0)))"

section \<open>HalfEdgeGraphSearch.js\<close>

text \<open>
  The work stack of the flood fill is a list whose head is the top of the stack; the
  list of faces grows at its end.
\<close>

primrec pushAndMaskWalk ::
  "nat \<Rightarrow> nat \<Rightarrow> nat \<Rightarrow> int \<Rightarrow> graph \<Rightarrow> nat list \<Rightarrow> error + (graph \<times> nat list)" where
  "pushAndMaskWalk 0 seed n m g st = Inl OutOfFuel"
| "pushAndMaskWalk (Suc k) seed n m g st =
     (let g1 = setMask n m g in
      if fsucc g1 n = seed then Inr (g1, n # st)
      else pushAndMaskWalk k seed (fsucc g1 n) m g1 (n # st))"

definition pushAndMaskAllNodesInFace ::
  "nat \<Rightarrow> nat \<Rightarrow> int \<Rightarrow> graph \<Rightarrow> nat list \<Rightarrow> nat list \<Rightarrow> error + (graph \<times> nat list \<times> nat list)" where
  "pushAndMaskAllNodesInFace fuel faceSeed m g st faces =
     bindE (pushAndMaskWalk fuel faceSeed faceSeed m g st)
       (\<lambda>r. Inr (fst r, snd r, faces @ [faceSeed]))"

text \<open>
  \<^verbatim>\<open>findMinimumAreaFace\<close>: \<open>best\<close> is \<^verbatim>\<open>mostNegativeAreaNode\<close>; \<open>low = None\<close> stands for the
  initial \<^verbatim>\<open>Number.MAX_VALUE\<close>, which every negative area is below. On an empty array the
  source returns \<^verbatim>\<open>nodes[0]\<close>, that is \<^verbatim>\<open>undefined\<close>.
\<close>

primrec minAreaScan :: "nat \<Rightarrow> graph \<Rightarrow> nat list \<Rightarrow> nat \<Rightarrow> real option \<Rightarrow> error + nat" where
  "minAreaScan fuel g [] best low = Inr best"
| "minAreaScan fuel g (n # ns) best low =
     bindE (signedFaceArea fuel g n)
       (\<lambda>area. if area < 0 \<and> (case low of None \<Rightarrow> True | Some l \<Rightarrow> area < l)
               then minAreaScan fuel g ns n (Some area)
               else minAreaScan fuel g ns best low)"

definition findMinimumAreaFace :: "nat \<Rightarrow> graph \<Rightarrow> nat list \<Rightarrow> error + nat option" where
  "findMinimumAreaFace fuel g nodes =
     (case nodes of
        [] \<Rightarrow> Inr None
      | n # ns \<Rightarrow> bindE (minAreaScan fuel g nodes n None) (\<lambda>b. Inr (Some b)))"

text \<open>
  The \<^verbatim>\<open>while (stack.length > 0)\<close> loop of \<^verbatim>\<open>parityFloodFromSeed\<close>.
\<close>

primrec floodLoop ::
  "nat \<Rightarrow> int \<Rightarrow> int \<Rightarrow> graph \<Rightarrow> nat list \<Rightarrow> nat list \<Rightarrow> error + (graph \<times> nat list)" where
  "floodLoop 0 visitMask parityMask g st faces = Inl OutOfFuel"
| "floodLoop (Suc k) visitMask parityMask g st faces =
     (case st of
        [] \<Rightarrow> Inr (g, faces)
      | p # st1 \<Rightarrow>
          (case edgeMate (g ! p) of
             None \<Rightarrow> floodLoop k visitMask parityMask g st1 faces
           | Some mate \<Rightarrow>
               if \<not> isMaskSet g mate visitMask
               then let mateState = \<not> isMaskSet g p parityMask in
                    bindE (pushAndMaskAllNodesInFace k mate
                             (if mateState then parityMask OR visitMask else visitMask) g st1 faces)
                      (\<lambda>r. floodLoop k visitMask parityMask (fst r) (fst (snd r)) (snd (snd r)))
               else floodLoop k visitMask parityMask g st1 faces))"

definition parityFloodFromSeed ::
  "nat \<Rightarrow> graph \<Rightarrow> nat \<Rightarrow> int \<Rightarrow> int \<Rightarrow> error + (graph \<times> nat list)" where
  "parityFloodFromSeed fuel g seedEdge visitMask parityMask =
     (if isMaskSet g seedEdge visitMask then Inr (g, [])
      else bindE (pushAndMaskAllNodesInFace fuel seedEdge (parityMask OR visitMask) g [] [])
             (\<lambda>r. floodLoop fuel visitMask parityMask (fst r) (fst (snd r)) (snd (snd r))))"

text \<open>
  \<^verbatim>\<open>correctParityInSingleComponent\<close>: the loop over the face seeds that toggles the mask.
\<close>

primrec toggleFaces :: "nat \<Rightarrow> int \<Rightarrow> nat list \<Rightarrow> graph \<Rightarrow> error + graph" where
  "toggleFaces fuel m [] g = Inr g"
| "toggleFaces fuel m (faceSeed # fs) g =
     bindE (if isMaskSet g faceSeed m then clearMaskAroundFace fuel faceSeed m g
            else setMaskAroundFace fuel faceSeed m g)
       (toggleFaces fuel m fs)"

definition correctParityInSingleComponent :: "nat \<Rightarrow> int \<Rightarrow> nat list \<Rightarrow> graph \<Rightarrow> error + graph" where
  "correctParityInSingleComponent fuel m faces g =
     bindE (findMinimumAreaFace fuel g faces)
       (\<lambda>ext. case ext of
                None \<Rightarrow> Inl TypeError
              | Some exteriorHalfEdge \<Rightarrow>
                  if isMaskSet g exteriorHalfEdge m then Inr g else toggleFaces fuel m faces g)"

primrec correctAll :: "nat \<Rightarrow> int \<Rightarrow> nat list list \<Rightarrow> graph \<Rightarrow> error + graph" where
  "correctAll fuel m [] g = Inr g"
| "correctAll fuel m (facesInComponent # cs) g =
     bindE (correctParityInSingleComponent fuel m facesInComponent g) (correctAll fuel m cs)"

definition correctParityInComponentArrays ::
  "nat \<Rightarrow> int \<Rightarrow> nat list list \<Rightarrow> graph \<Rightarrow> error + graph" where
  "correctParityInComponentArrays fuel m components g =
     (if m = 0 then Inr g else correctAll fuel m components g)"

text \<open>
  The loop of \<^verbatim>\<open>collectConnectedComponents\<close> over \<^verbatim>\<open>allHalfEdges\<close>, here over the indices
  still to be visited.
\<close>

primrec collectLoop ::
  "nat \<Rightarrow> int \<Rightarrow> nat list \<Rightarrow> graph \<Rightarrow> nat list list \<Rightarrow> error + (graph \<times> nat list list)" where
  "collectLoop fuel parityMask [] g components = Inr (g, components)"
| "collectLoop fuel parityMask (faceSeed # rest) g components =
     (if \<not> isMaskSet g faceSeed VISITED
      then bindE (parityFloodFromSeed fuel g faceSeed VISITED parityMask)
             (\<lambda>r. collectLoop fuel parityMask rest (fst r) (components @ [snd r]))
      else collectLoop fuel parityMask rest g components)"

definition collectConnectedComponents ::
  "nat \<Rightarrow> graph \<Rightarrow> int \<Rightarrow> error + (graph \<times> nat list list)" where
  "collectConnectedComponents fuel g parityMask =
     (let g0 = graphClearMask (parityMask OR VISITED) g in
      bindE (collectLoop fuel parityMask [0 ..< length g0] g0 [])
        (\<lambda>r. bindE (correctParityInComponentArrays fuel parityMask (snd r) (fst r))
               (\<lambda>g1. Inr (g1, snd r))))"

section \<open>Face loops as paths\<close>

text \<open>
  \<open>facePath g p ns q\<close>: following \<^verbatim>\<open>faceSuccessor\<close> from \<open>p\<close> visits exactly the nodes
  \<open>ns\<close>, in this order, and arrives at \<open>q\<close>.
\<close>

primrec facePath :: "graph \<Rightarrow> nat \<Rightarrow> nat list \<Rightarrow> nat \<Rightarrow> bool" where
  "facePath g p [] q \<longleftrightarrow> p = q"
| "facePath g p (n # ns) q \<longleftrightarrow> p = n \<and> facePath g (fsucc g n) ns q"

section \<open>The choice of the bridge\<close>

text \<open>
  The parts of the first loop of \<^verbatim>\<open>findHoleBridge\<close>, for the edge from \<open>p\<close> to its face
  successor: the \<open>x\<close> at which the edge meets the horizontal line through the hole point,
  the test that the edge is crossed by the ray from the hole point to the left (the edge
  runs downwards through the height \<open>hy\<close>, and meets it at or to the left of \<open>hx\<close>), and
  the endpoint with the lesser \<open>x\<close>, which is the successor when the two are equal.
\<close>

definition crossX :: "graph \<Rightarrow> real \<Rightarrow> nat \<Rightarrow> real" where
  "crossX g hy p =
     xc (g ! p) + (hy - yc (g ! p)) * (xc (g ! fsucc g p) - xc (g ! p)) /
                  (yc (g ! fsucc g p) - yc (g ! p))"

definition edgeCrossed :: "graph \<Rightarrow> real \<Rightarrow> real \<Rightarrow> nat \<Rightarrow> bool" where
  "edgeCrossed g hx hy p =
     (hy \<le> yc (g ! p) \<and> hy \<ge> yc (g ! fsucc g p) \<and> yc (g ! fsucc g p) \<noteq> yc (g ! p) \<and>
      crossX g hy p \<le> hx)"

definition lesserEnd :: "graph \<Rightarrow> nat \<Rightarrow> nat" where
  "lesserEnd g p = (if xc (g ! p) < xc (g ! fsucc g p) then p else fsucc g p)"

text \<open>
  The edge that the first loop settles on, among the crossed edges \<open>hits\<close> in loop order:
  one whose crossing is the largest, and the first such. The state of the loop after the
  edges \<open>hits\<close> is \<open>None\<close> if there is none, and else the crossing and the lesser endpoint
  of that edge.
\<close>

definition firstLargest :: "graph \<Rightarrow> real \<Rightarrow> nat list \<Rightarrow> nat \<Rightarrow> bool" where
  "firstLargest g hy hits e =
     (e \<in> set hits \<and> (\<forall>e' \<in> set hits. crossX g hy e' \<le> crossX g hy e) \<and>
      (\<forall>e' \<in> set (takeWhile (\<lambda>n. n \<noteq> e) hits). crossX g hy e' < crossX g hy e))"

definition scanChoice :: "graph \<Rightarrow> real \<Rightarrow> nat list \<Rightarrow> (real \<times> nat) option \<Rightarrow> bool" where
  "scanChoice g hy hits qm =
     (if hits = [] then qm = None
      else \<exists>e. firstLargest g hy hits e \<and> qm = Some (crossX g hy e, lesserEnd g e))"

text \<open>
  The nodes of the loop \<open>es\<close> after \<open>m\<close>, in loop order, up to the node before \<open>m\<close>: the
  nodes that the second loop of \<^verbatim>\<open>findHoleBridge\<close> visits.
\<close>

definition loopAfter :: "nat list \<Rightarrow> nat \<Rightarrow> nat list" where
  "loopAfter es m = tl (dropWhile (\<lambda>n. n \<noteq> m) es) @ takeWhile (\<lambda>n. n \<noteq> m) es"

text \<open>
  The test of the second loop for a node \<open>p\<close> other than \<open>m0\<close>: its \<open>x\<close> lies between that
  of \<open>m0\<close> and that of the hole point, which it does not reach; it passes
  \<^verbatim>\<open>pointInTriangle\<close> for the hole point, \<open>m0\<close> and the crossing point, which holds on the
  boundary of the triangle too; and \<^verbatim>\<open>locallyInside(p, hole)\<close> holds. Among the nodes
  \<open>cands\<close> that pass, the choice \<open>r\<close> has the least tangent, and among those with the least
  tangent the largest \<open>x\<close>; without such a node it is \<open>m0\<close>.
\<close>

definition bridgeQualifies :: "graph \<Rightarrow> nat \<Rightarrow> real \<Rightarrow> nat \<Rightarrow> nat \<Rightarrow> bool" where
  "bridgeQualifies g hole qx m0 p =
     (bridgeCandidate g (xc (g ! hole)) (yc (g ! hole)) qx m0 p \<and> locallyInside g p hole)"

definition bridgeChoice :: "graph \<Rightarrow> nat \<Rightarrow> nat \<Rightarrow> nat list \<Rightarrow> nat \<Rightarrow> bool" where
  "bridgeChoice g hole m0 cands r =
     (let hx = xc (g ! hole); hy = yc (g ! hole) in
      if cands = [] then r = m0
      else r \<in> set cands \<and>
           (\<forall>q \<in> set cands. bridgeTan g hx hy r < bridgeTan g hx hy q \<or>
                (bridgeTan g hx hy r = bridgeTan g hx hy q \<and> xc (g ! q) \<le> xc (g ! r))))"

text \<open>
  The result of \<^verbatim>\<open>findHoleBridge\<close> on the loop \<open>es\<close> of the outer node, for a hole point
  that does not touch the loop: \<^verbatim>\<open>undefined\<close> if no edge is crossed, and else the choice
  among the nodes after the lesser endpoint of the first edge with the largest crossing.
\<close>

definition bridgeSpec :: "graph \<Rightarrow> nat \<Rightarrow> nat list \<Rightarrow> nat option \<Rightarrow> bool" where
  "bridgeSpec g hole es r =
     (let hx = xc (g ! hole); hy = yc (g ! hole); hits = filter (edgeCrossed g hx hy) es in
      if hits = [] then r = None
      else \<exists>e m. firstLargest g hy hits e \<and> r = Some m \<and>
             bridgeChoice g hole (lesserEnd g e)
               (filter (bridgeQualifies g hole (crossX g hy e) (lesserEnd g e))
                  (loopAfter es (lesserEnd g e))) m)"

text \<open>
  The claim as the specification words it: the candidates are the loop vertices strictly
  inside the triangle of the hole point, the crossing point and the endpoint \<open>m0\<close>.
\<close>

definition strictlyInTriangle ::
  "real \<Rightarrow> real \<Rightarrow> real \<Rightarrow> real \<Rightarrow> real \<Rightarrow> real \<Rightarrow> real \<Rightarrow> real \<Rightarrow> bool" where
  "strictlyInTriangle ax ay bx by cx cy px py =
     (let d1 = (cx - px) * (ay - py) - (ax - px) * (cy - py);
          d2 = (ax - px) * (by - py) - (bx - px) * (ay - py);
          d3 = (bx - px) * (cy - py) - (cx - px) * (by - py)
      in (d1 > 0 \<and> d2 > 0 \<and> d3 > 0) \<or> (d1 < 0 \<and> d2 < 0 \<and> d3 < 0))"

definition specBridgeCandidate :: "graph \<Rightarrow> nat \<Rightarrow> real \<Rightarrow> nat \<Rightarrow> nat \<Rightarrow> bool" where
  "specBridgeCandidate g hole qx m0 p =
     strictlyInTriangle (xc (g ! hole)) (yc (g ! hole)) qx (yc (g ! hole))
       (xc (g ! m0)) (yc (g ! m0)) (xc (g ! p)) (yc (g ! p))"

section \<open>Faces and their parity\<close>

text \<open>
  Every edge mate is a node of the graph.
\<close>

definition matesInRange :: "graph \<Rightarrow> bool" where
  "matesInRange g =
     list_all (\<lambda>n. case edgeMate (g ! n) of None \<Rightarrow> True | Some m \<Rightarrow> m < length g)
       [0 ..< length g]"

text \<open>
  Two graphs with the same links, mates and coordinates: they differ in the masks only.
\<close>

definition sameLinks :: "graph \<Rightarrow> graph \<Rightarrow> bool" where
  "sameLinks g g' =
     (length g' = length g \<and>
      (\<forall>n < length g. fsucc g' n = fsucc g n \<and> fpred g' n = fpred g n \<and>
           edgeMate (g' ! n) = edgeMate (g ! n) \<and>
           xc (g' ! n) = xc (g ! n) \<and> yc (g' ! n) = yc (g ! n)))"

text \<open>
  \<open>faceCycle g f ns\<close>: the face loop of \<open>f\<close> is the list \<open>ns\<close>, without repetition; \<open>onFace g f n\<close>:
  the node \<open>n\<close> is reached from \<open>f\<close> by \<^verbatim>\<open>faceSuccessor\<close> steps, so it lies on the face of \<open>f\<close>.
\<close>

definition faceCycle :: "graph \<Rightarrow> nat \<Rightarrow> nat list \<Rightarrow> bool" where
  "faceCycle g f ns = (facePath g f ns f \<and> ns \<noteq> [] \<and> distinct ns \<and> set ns \<subseteq> {..< length g})"

definition onFace :: "graph \<Rightarrow> nat \<Rightarrow> nat \<Rightarrow> bool" where
  "onFace g f n = (\<exists>ns. facePath g f ns n)"

text \<open>
  The state of the flood fill, relative to the graph \<open>g0\<close> it started from: only masks
  have changed; along every face the visit mask and the parity mask are constant; and a
  node that is not visited does not carry the parity mask. \<open>unvisited\<close> is the set of the
  nodes without the visit mask.
\<close>

definition floodInv :: "graph \<Rightarrow> int \<Rightarrow> graph \<Rightarrow> bool" where
  "floodInv g0 pm h =
     (sameLinks g0 h \<and>
      (\<forall>n < length g0. isMaskSet h (fsucc g0 n) VISITED = isMaskSet h n VISITED \<and>
                        isMaskSet h (fsucc g0 n) pm = isMaskSet h n pm) \<and>
      (\<forall>n < length g0. \<not> isMaskSet h n VISITED \<longrightarrow> \<not> isMaskSet h n pm))"

definition unvisited :: "graph \<Rightarrow> nat set" where
  "unvisited h = {n. n < length h \<and> \<not> isMaskSet h n VISITED}"

text \<open>
  What a flood fill from the state \<open>h\<close> to the state \<open>h'\<close> has done when it has added the
  face seeds \<open>new\<close>: visited nodes stay visited, the new seeds are visited nodes on faces
  that differ from each other and from every face visited before.
\<close>

definition floodOut :: "graph \<Rightarrow> int \<Rightarrow> graph \<Rightarrow> graph \<Rightarrow> nat list \<Rightarrow> bool" where
  "floodOut g0 pm h h' new =
     (floodInv g0 pm h' \<and>
      (\<forall>k. isMaskSet h k VISITED \<longrightarrow> isMaskSet h' k VISITED) \<and>
      (\<forall>b \<in> set new. b < length g0 \<and> isMaskSet h' b VISITED) \<and>
      sorted_wrt (\<lambda>a b. \<not> onFace g0 a b) new \<and>
      (\<forall>a < length g0. isMaskSet h a VISITED \<longrightarrow> (\<forall>b \<in> set new. \<not> onFace g0 a b)))"

text \<open>
  The face that \<^verbatim>\<open>findMinimumAreaFace\<close> looks for among the face seeds \<open>fs\<close> with the signed
  areas \<open>A\<close>: its area is negative and the least, and it is the first seed with that area.
  \<open>mostNegativeFace\<close> takes the areas from \<^verbatim>\<open>signedFaceArea\<close>.
\<close>

definition leastNeg :: "(nat \<Rightarrow> real) \<Rightarrow> nat list \<Rightarrow> nat \<Rightarrow> bool" where
  "leastNeg A fs e =
     (e \<in> set fs \<and> A e < 0 \<and> (\<forall>f \<in> set fs. A e \<le> A f) \<and>
      (\<forall>f \<in> set (takeWhile (\<lambda>f. f \<noteq> e) fs). A e < A f))"

definition mostNegativeFace :: "nat \<Rightarrow> graph \<Rightarrow> nat list \<Rightarrow> nat \<Rightarrow> bool" where
  "mostNegativeFace fuel g fs e =
     (\<exists>A. (\<forall>f \<in> set fs. signedFaceArea fuel g f = Inr (A f)) \<and> leastNeg A fs e)"

text \<open>
  The correction of one component \<open>c\<close> from the state \<open>h\<close> to the state \<open>h'\<close>: the face with
  the most negative area carries the parity mask in \<open>h'\<close>, and on every node of the faces
  of the component the mask is as in \<open>h\<close> if that face carried it there, and toggled if not.
\<close>

definition compOK :: "graph \<Rightarrow> int \<Rightarrow> nat \<Rightarrow> graph \<Rightarrow> graph \<Rightarrow> nat list \<Rightarrow> bool" where
  "compOK g0 pm fuel h h' c =
     (\<forall>ext. mostNegativeFace fuel g0 c ext \<longrightarrow>
        isMaskSet h' ext pm \<and>
        (\<forall>n. (\<exists>f \<in> set c. onFace g0 f n) \<longrightarrow>
           isMaskSet h' n pm =
             (if isMaskSet h ext pm then isMaskSet h n pm else \<not> isMaskSet h n pm)))"

section \<open>Concrete graphs\<close>

text \<open>
  A half-edge with \<open>z = 0\<close>, \<open>i = 0\<close>, no steiner flag and no Z-order data, as the loop
  construction and the ear cutting create them.
\<close>

definition mkNode :: "real \<Rightarrow> real \<Rightarrow> int \<Rightarrow> nat \<Rightarrow> nat \<Rightarrow> nat \<Rightarrow> halfedge" where
  "mkNode x y m s p mt = (newHalfEdge x y 0 0 s p mt)\<lparr>maskBits := m\<rparr>"

text \<open>
  The face loop of the pentagon \<open>(0,0), (2,-2), (3,0), (2,2), (1,0)\<close>: the even nodes are
  the counter-clockwise interior loop, the odd nodes the exterior loop. The reflex vertex
  \<open>(1,0)\<close> lies on the segment from \<open>(0,0)\<close> to \<open>(3,0)\<close>.
\<close>

definition notchedLoop :: graph where
  "notchedLoop =
     [mkNode 0 0 514 2 8 3,
      mkNode 0 0 515 9 3 8,
      mkNode 2 (-2) 514 4 0 5,
      mkNode 2 (-2) 515 1 5 0,
      mkNode 3 0 514 6 2 7,
      mkNode 3 0 515 3 7 2,
      mkNode 2 2 514 8 4 9,
      mkNode 2 2 515 5 9 4,
      mkNode 1 0 514 0 6 1,
      mkNode 1 0 515 7 1 6]"

text \<open>
  The ear test in the words of the specification: the signed area of the candidate
  triangle is non-positive and none of the given loop vertices lies strictly inside it.
\<close>

definition specStrictlyInside :: "graph \<Rightarrow> nat \<Rightarrow> nat \<Rightarrow> bool" where
  "specStrictlyInside g ear p =
     (let a = g ! fpred g ear; b = g ! ear; c = g ! fsucc g ear; q = g ! p in
      (xc c - xc q) * (yc a - yc q) - (xc a - xc q) * (yc c - yc q) > 0 \<and>
      (xc a - xc q) * (yc b - yc q) - (xc b - xc q) * (yc a - yc q) > 0 \<and>
      (xc b - xc q) * (yc c - yc q) - (xc c - xc q) * (yc b - yc q) > 0)"

definition specIsEar :: "graph \<Rightarrow> nat \<Rightarrow> nat list \<Rightarrow> bool" where
  "specIsEar g ear others =
     (signedTriangleArea (g ! fpred g ear) (g ! ear) (g ! fsucc g ear) \<le> 0 \<and>
      list_all (\<lambda>p. \<not> specStrictlyInside g ear p) others)"

text \<open>
  The hexagon on which the flip cleanup is run, its triangulation by
  \<^verbatim>\<open>earcutSingleLoop\<close> (nodes 12 to 17 are the three diagonals), the graph after the first
  flip, at node 12, and the graph that \<^verbatim>\<open>cleanupTriangulation\<close> returns.
\<close>

definition hexagon :: "(real \<times> real) list" where
  "hexagon = [(-1, -2), (4, -4), (3, -1), (2, 4), (-4, 3), (-4, 2)]"

definition hexagonTriangulated :: graph where
  "hexagonTriangulated =
     [mkNode (-1) (-2) 16898 13 10 3,
      mkNode (-1) (-2) 515 11 3 10,
      mkNode 4 (-4) 16898 14 16 5,
      mkNode 4 (-4) 515 1 5 0,
      mkNode 3 (-1) 16898 6 15 7,
      mkNode 3 (-1) 515 3 7 2,
      mkNode 2 4 16898 15 4 9,
      mkNode 2 4 515 5 9 4,
      mkNode (-4) 3 16898 12 17 11,
      mkNode (-4) 3 515 7 11 6,
      mkNode (-4) 2 16898 0 13 1,
      mkNode (-4) 2 515 9 1 8,
      mkNode (-4) 2 16384 17 8 13,
      mkNode 4 (-4) 16384 10 0 12,
      mkNode 3 (-1) 16384 16 2 15,
      mkNode (-4) 3 16384 4 6 14,
      mkNode (-4) 3 16384 2 14 17,
      mkNode 4 (-4) 16384 8 12 16]"

definition hexagonFlipped :: graph where
  "hexagonFlipped =
     [mkNode (-1) (-2) 16898 17 13 3,
      mkNode (-1) (-2) 515 11 3 10,
      mkNode 4 (-4) 16898 14 16 5,
      mkNode 4 (-4) 515 1 5 0,
      mkNode 3 (-1) 16898 6 15 7,
      mkNode 3 (-1) 515 3 7 2,
      mkNode 2 4 16898 15 4 9,
      mkNode 2 4 515 5 9 4,
      mkNode (-4) 3 16898 10 12 11,
      mkNode (-4) 3 515 7 11 6,
      mkNode (-4) 2 16898 12 8 1,
      mkNode (-4) 2 515 9 1 8,
      mkNode (-1) (-2) 24576 8 10 13,
      mkNode (-4) 3 16384 0 17 12,
      mkNode 3 (-1) 16384 16 2 15,
      mkNode (-4) 3 16384 4 6 14,
      mkNode (-4) 3 16384 2 14 17,
      mkNode 4 (-4) 16384 13 0 16]"

definition hexagonCleaned :: graph where
  "hexagonCleaned =
     [mkNode (-1) (-2) 16898 2 17 3,
      mkNode (-1) (-2) 515 11 3 10,
      mkNode 4 (-4) 16898 17 0 5,
      mkNode 4 (-4) 515 1 5 0,
      mkNode 3 (-1) 16898 14 13 7,
      mkNode 3 (-1) 515 3 7 2,
      mkNode 2 4 16898 8 15 9,
      mkNode 2 4 515 5 9 4,
      mkNode (-4) 3 16898 15 6 11,
      mkNode (-4) 3 515 7 11 6,
      mkNode (-4) 2 16898 16 12 1,
      mkNode (-4) 2 515 9 1 8,
      mkNode 3 (-1) 16384 10 16 13,
      mkNode (-4) 2 16384 4 14 12,
      mkNode 2 4 16384 13 4 15,
      mkNode (-4) 2 16384 6 8 14,
      mkNode (-1) (-2) 16384 12 10 17,
      mkNode 3 (-1) 16384 0 2 16]"

text \<open>
  The graph that \<^verbatim>\<open>earcutSingleLoop\<close> builds from the single point \<open>(0,0)\<close>: two mated
  half-edges, each its own face loop.
\<close>

definition pointLoop :: graph where
  "pointLoop = [mkNode 0 0 514 0 0 1, mkNode 0 0 515 1 1 0]"

text \<open>
  Three \<^verbatim>\<open>faceSuccessor\<close> steps from \<open>n\<close> lead back to \<open>n\<close>: this is the test of
  \<^verbatim>\<open>computeInCircleDeterminant\<close>, which a face loop of length 3 or of length 1 passes. The
  face loop of \<open>n\<close> is a triangle when moreover \<open>n\<close> is not its own successor.
\<close>

definition closesInThree :: "graph \<Rightarrow> nat \<Rightarrow> bool" where
  "closesInThree g n = (fsucc g (fsucc g (fsucc g n)) = n)"

definition faceIsTriangle :: "graph \<Rightarrow> nat \<Rightarrow> bool" where
  "faceIsTriangle g n = (closesInThree g n \<and> fsucc g n \<noteq> n)"

text \<open>
  The outer square of the hole examples.
\<close>

definition outerSquare :: "(real \<times> real) list" where
  "outerSquare = [(0, 0), (4, 0), (4, 4), (0, 4)]"

text \<open>
  The links of a graph are well formed when every \<^verbatim>\<open>faceSuccessor\<close> and
  \<^verbatim>\<open>facePredecessor\<close> is a node of the graph and the two fields are inverse to each other.
\<close>

definition wfLinks :: "graph \<Rightarrow> bool" where
  "wfLinks g =
     list_all (\<lambda>n. fsucc g n < length g \<and> fpred g n < length g \<and>
                    fpred g (fsucc g n) = n \<and> fsucc g (fpred g n) = n) [0 ..< length g]"

text \<open>
  The graph in which \<open>joinLinks\<close> runs its two pinches: the new pair is appended and the
  ear is unlinked from the Z-order list.
\<close>

definition joinPrepared :: "nat \<Rightarrow> graph \<Rightarrow> graph" where
  "joinPrepared ear g =
     (let a = g ! fpred g ear; c = g ! fsucc g ear in
      unlinkZ ear
        (g @ [newHalfEdge (xc a) (yc a) (zc a) (idx a) (Suc (length g)) (Suc (length g))
                (Suc (length g)),
              newHalfEdge (xc c) (yc c) (zc c) (idx c) (length g) (length g) (length g)]))"

text \<open>
  Two graphs with the same links, coordinates and steiner flags.
\<close>

definition sameShape :: "graph \<Rightarrow> graph \<Rightarrow> bool" where
  "sameShape g g' =
     (length g' = length g \<and>
      (\<forall>n. fsucc g' n = fsucc g n \<and> fpred g' n = fpred g n \<and> xc (g' ! n) = xc (g ! n) \<and>
           yc (g' ! n) = yc (g ! n) \<and> steiner (g' ! n) = steiner (g ! n)))"

text \<open>
  An outer loop whose first vertex \<open>(2,0)\<close> lies on the segment between its neighbours
  \<open>(0,0)\<close> and \<open>(4,0)\<close>, a hole to the left of it, for which no bridge exists, and the graph
  that holds the two loops when \<^verbatim>\<open>spliceLeftMostNodesOfHoles\<close> reaches its call of
  \<^verbatim>\<open>filterPoints\<close>; node 0 is the outer node.
\<close>

definition collinearOuter :: "(real \<times> real) list" where
  "collinearOuter = [(2, 0), (4, 0), (4, 4), (0, 4), (0, 0)]"

definition farHole :: "(real \<times> real) list" where
  "farHole = [(-3, 1), (-2, 1), (-2, 2)]"

definition collinearWithHole :: graph where
  "collinearWithHole =
     [mkNode 2 0 514 2 8 3,
      mkNode 2 0 515 9 3 8,
      mkNode 4 0 514 4 0 5,
      mkNode 4 0 515 1 5 0,
      mkNode 4 4 514 6 2 7,
      mkNode 4 4 515 3 7 2,
      mkNode 0 4 514 8 4 9,
      mkNode 0 4 515 5 9 4,
      mkNode 0 0 514 0 6 1,
      mkNode 0 0 515 7 1 6,
      mkNode (-3) 1 515 12 14 13,
      mkNode (-3) 1 514 15 13 14,
      mkNode (-2) 1 515 14 10 15,
      mkNode (-2) 1 514 11 15 10,
      mkNode (-2) 2 515 10 12 11,
      mkNode (-2) 2 514 13 11 12]"

text \<open>
  The outer square with the two one-point holes \<open>(2,2)\<close> and \<open>(3,2)\<close>, in the state in
  which \<^verbatim>\<open>eliminateHole\<close> has spliced the second hole and calls \<^verbatim>\<open>filterPoints\<close>. Nodes 9 and
  11 are the steiner nodes of the holes, nodes 12 and 13 the bridge pair of the first hole,
  nodes 14 and 15 that of the second, whose bridge starts at node 13. The merged loop is
  \<open>14, 11, 15, 13, 0, 2, 4, 6, 12, 9\<close>; node 14 has the coordinates of its predecessor, the
  steiner node 9.
\<close>

definition steinerHoles :: "(real \<times> real) list list" where
  "steinerHoles = [[(2, 2)], [(3, 2)]]"

definition twoSteinerSpliced :: graph where
  "twoSteinerSpliced =
     [mkNode 0 0 514 2 13 3,
      mkNode 0 0 515 7 3 6,
      mkNode 4 0 514 4 0 5,
      mkNode 4 0 515 1 5 0,
      mkNode 4 4 514 6 2 7,
      mkNode 4 4 515 3 7 2,
      mkNode 0 4 514 12 4 1,
      mkNode 0 4 515 5 1 4,
      mkNode 2 2 515 8 8 9,
      (mkNode 2 2 514 14 12 8)\<lparr>steiner := True\<rparr>,
      mkNode 3 2 515 10 10 11,
      (mkNode 3 2 514 15 14 10)\<lparr>steiner := True\<rparr>,
      mkNode 0 0 0 9 6 13,
      mkNode 2 2 0 0 15 12,
      mkNode 2 2 0 11 9 15,
      mkNode 3 2 0 13 11 14]"


text \<open>
  An outer loop whose vertex \<open>(3,1)\<close> lies on the segment from \<open>(0,0)\<close> to the leftmost
  point \<open>(6,2)\<close> of the hole, and the graph of the two loops; node 0 is the outer node and
  node 11 the leftmost node of the hole.
\<close>

definition notchedOuter :: "(real \<times> real) list" where
  "notchedOuter = [(0, 0), (3, 1), (8, 0), (8, 8), (0, 8)]"

definition smallHole :: "(real \<times> real) list" where
  "smallHole = [(6, 2), (7, 2), (7, 3)]"

definition notchedWithHole :: graph where
  "notchedWithHole =
     [mkNode 0 0 514 2 8 3,
      mkNode 0 0 515 9 3 8,
      mkNode 3 1 514 4 0 5,
      mkNode 3 1 515 1 5 0,
      mkNode 8 0 514 6 2 7,
      mkNode 8 0 515 3 7 2,
      mkNode 8 8 514 8 4 9,
      mkNode 8 8 515 5 9 4,
      mkNode 0 8 514 0 6 1,
      mkNode 0 8 515 7 1 6,
      mkNode 6 2 515 12 14 13,
      mkNode 6 2 514 15 13 14,
      mkNode 7 2 515 14 10 15,
      mkNode 7 2 514 11 15 10,
      mkNode 7 3 515 10 12 11,
      mkNode 7 3 514 13 11 12]"

text \<open>
  An outer loop with the two vertices \<open>(2,2)\<close> and \<open>(4,2)\<close> inside the triangle of the hole
  point \<open>(6,3)\<close>, the crossing point \<open>(0,3)\<close> and the endpoint \<open>(0,0)\<close>, and the graph of the
  two loops; node 0 is the outer node and node 15 the leftmost node of the hole.
\<close>

definition zigzagOuter :: "(real \<times> real) list" where
  "zigzagOuter = [(0, 0), (2, 2), (3, 1), (4, 2), (8, 0), (8, 8), (0, 8)]"

definition zigzagHole :: "(real \<times> real) list" where
  "zigzagHole = [(6, 3), (7, 3), (7, 4)]"

definition zigzagWithHole :: graph where
  "zigzagWithHole =
     [mkNode 0 0 514 2 12 3,
      mkNode 0 0 515 13 3 12,
      mkNode 2 2 514 4 0 5,
      mkNode 2 2 515 1 5 0,
      mkNode 3 1 514 6 2 7,
      mkNode 3 1 515 3 7 2,
      mkNode 4 2 514 8 4 9,
      mkNode 4 2 515 5 9 4,
      mkNode 8 0 514 10 6 11,
      mkNode 8 0 515 7 11 6,
      mkNode 8 8 514 12 8 13,
      mkNode 8 8 515 9 13 8,
      mkNode 0 8 514 0 10 1,
      mkNode 0 8 515 11 1 10,
      mkNode 6 3 515 16 18 17,
      mkNode 6 3 514 19 17 18,
      mkNode 7 3 515 18 14 19,
      mkNode 7 3 514 15 19 14,
      mkNode 7 4 515 14 16 15,
      mkNode 7 4 514 17 15 16]"

section \<open>Basic lemmas\<close>

lemma bindE_simps [simp]: "bindE (Inl e) f = Inl e" "bindE (Inr v) f = f v"
  by (simp_all add: bindE_def)

lemma nth_upd: "(xs[i := v]) ! n = (if n = i \<and> i < length xs then v else xs ! n)"
  by (cases "i < length xs") (auto simp: nth_list_update list_update_beyond)

lemma fsucc_setMask [simp]: "faceSuccessor (setMask i m g ! n) = faceSuccessor (g ! n)"
  by (simp add: setMask_def nth_upd)

lemma fpred_setMask [simp]: "facePredecessor (setMask i m g ! n) = facePredecessor (g ! n)"
  by (simp add: setMask_def nth_upd)

lemma edgeMate_setMask [simp]: "edgeMate (setMask i m g ! n) = edgeMate (g ! n)"
  by (simp add: setMask_def nth_upd)

lemma length_setMask [simp]: "length (setMask i m g) = length g"
  by (simp add: setMask_def)

lemma map_fsucc_setMask [simp]: "map faceSuccessor (setMask i m g) = map faceSuccessor g"
  by (simp add: list_eq_iff_nth_eq)

lemma xc_setMask [simp]: "xc (setMask i m g ! n) = xc (g ! n)"
  by (simp add: setMask_def nth_upd)

lemma yc_setMask [simp]: "yc (setMask i m g ! n) = yc (g ! n)"
  by (simp add: setMask_def nth_upd)

section \<open>Properties of the ear test\<close>

lemma isEarScan_facePath:
  "facePath g p ns q \<Longrightarrow> q = fpred g ear \<Longrightarrow> q \<notin> set ns \<Longrightarrow> length ns < fuel \<Longrightarrow>
   isEarScan fuel g ear p = Inr (\<forall>n \<in> set ns. \<not> earBlockedBy g ear n)"
proof (induction ns arbitrary: p fuel)
  case Nil
  then obtain k where "fuel = Suc k" by (cases fuel) auto
  with Nil show ?case by simp
next
  case (Cons n ns)
  then obtain k where k: "fuel = Suc k" by (cases fuel) auto
  from Cons.prems have pn: "p = n" and path: "facePath g (fsucc g n) ns q" by auto
  from Cons.prems have ne: "n \<noteq> fpred g ear" by auto
  show ?case
  proof (cases "earBlockedBy g ear n")
    case True
    with pn ne k show ?thesis by auto
  next
    case False
    have "isEarScan k g ear (fsucc g n) = Inr (\<forall>m \<in> set ns. \<not> earBlockedBy g ear m)"
      using Cons.IH [OF path] Cons.prems k by auto
    with False pn ne k show ?thesis by auto
  qed
qed

text \<open>
  C3 (as amended). On a face loop whose vertices other than the candidate and its two
  neighbours are \<open>ns\<close>, \<^verbatim>\<open>isEar\<close> returns, and it answers true exactly when the signed area
  of (predecessor, vertex, successor) is strictly negative and no vertex of \<open>ns\<close> that is
  itself reflex or flat (signed area of its own corner \<open>\<ge> 0\<close>) lies in the closed
  candidate triangle, boundary included.
\<close>

theorem isEar_iff_negative_area_and_unblocked:
  assumes "facePath g (fsucc g (fsucc g ear)) ns (fpred g ear)"
    and "fpred g ear \<notin> set ns"
    and "length ns < fuel"
  shows "isEar fuel g ear =
           Inr (signedTriangleArea (g ! fpred g ear) (g ! ear) (g ! fsucc g ear) < 0 \<and>
                (\<forall>p \<in> set ns. \<not> earBlockedBy g ear p))"
  using isEarScan_facePath [OF assms(1) refl assms(2) assms(3)]
  by (auto simp: isEar_def)

theorem isEar_iff_negative_area_and_unblocked_witness:
  "facePath notchedLoop (fsucc notchedLoop (fsucc notchedLoop 4)) [8, 0] (fpred notchedLoop 4) \<and>
   fpred notchedLoop 4 \<notin> set [8, 0] \<and> length [8, 0 :: nat] < 10 \<and>
   isEar 10 notchedLoop 4 = Inr True"
proof -
  have p: "facePath notchedLoop (fsucc notchedLoop (fsucc notchedLoop 4)) [8, 0] (fpred notchedLoop 4)"
    by (simp add: notchedLoop_def mkNode_def newHalfEdge_def)
  have d: "fpred notchedLoop 4 \<notin> set [8, 0]"
    by (simp add: notchedLoop_def mkNode_def newHalfEdge_def)
  have l: "length [8, 0 :: nat] < 10"
    by simp
  have "isEar 10 notchedLoop 4 = Inr True"
    using isEar_iff_negative_area_and_unblocked [OF p d l]
    by (simp add: notchedLoop_def mkNode_def newHalfEdge_def signedTriangleArea_def
        earBlockedBy_def pointInTriangle_def)
  with p d l show ?thesis by blast
qed

text \<open>
  C3 as stated fails on the pentagon: at the vertex \<open>(2,-2)\<close> (node 2) the signed area is
  negative and neither of the other loop vertices (nodes 6 and 8) is strictly inside the
  candidate triangle, yet \<^verbatim>\<open>isEar\<close> answers false, because the reflex vertex \<open>(1,0)\<close> lies
  on the boundary of that triangle.
\<close>

theorem isEar_not_spec_counterexample:
  "isEar 10 notchedLoop 2 = Inr False \<and> specIsEar notchedLoop 2 [6, 8]"
  by (simp add: isEar_def specIsEar_def specStrictlyInside_def notchedLoop_def mkNode_def
      newHalfEdge_def signedTriangleArea_def earBlockedBy_def pointInTriangle_def
      eval_nat_numeral)

section \<open>Properties of the flip cleanup\<close>

lemma incircle_defined:
  assumes "computeInCircleDeterminant g n = Inr (Some d)"
  shows "closesInThree g n \<and> (\<exists>m. edgeMate (g ! n) = Some m \<and> closesInThree g m)"
  using assms
  by (auto simp: computeInCircleDeterminant_def closesInThree_def Let_def
      split: if_splits option.splits)

lemma incircle_self_loop:
  assumes "computeInCircleDeterminant g n = Inr (Some d)" and "fsucc g n = n"
  shows "d = 0"
  using assms
  by (auto simp: computeInCircleDeterminant_def Let_def tripleProduct_def
      split: if_splits option.splits)

lemma cleanupStep_flip:
  assumes a: "cleanupStep (g, i, found) = Inr (g', i', found')"
    and b: "map faceSuccessor g' \<noteq> map faceSuccessor g"
  shows "\<exists>m e. edgeMate (g ! i) = Some m \<and>
         computeInCircleDeterminant (setMask i VISITED g) i = Inr (Some e) \<and> 0 < e \<and>
         faceIsTriangle g i \<and> closesInThree g m"
proof -
  let ?g1 = "setMask i VISITED g"
  from a b obtain m where m: "edgeMate (g ! i) = Some m"
    by (cases "edgeMate (g ! i)") (auto simp: cleanupStep_def Let_def split: if_splits)
  from a b m obtain inc where inc: "computeInCircleDeterminant ?g1 i = Inr inc"
    by (cases "computeInCircleDeterminant ?g1 i")
       (auto simp: cleanupStep_def Let_def split: if_splits)
  from a b m inc have "flipWanted inc"
    by (auto simp: cleanupStep_def Let_def split: if_splits)
  then obtain e where e: "inc = Some e" "0 < e"
    by (cases inc) (auto simp: flipWanted_def)
  from incircle_defined [OF inc [unfolded e(1)]] m
  have c: "closesInThree g i" "closesInThree g m"
    by (auto simp: closesInThree_def)
  have "fsucc g i \<noteq> i"
  proof
    assume "fsucc g i = i"
    then have "fsucc ?g1 i = i" by simp
    from incircle_self_loop [OF inc [unfolded e(1)] this] e(2) show False by simp
  qed
  with c m inc e show ?thesis
    by (auto simp: faceIsTriangle_def)
qed

lemma incircle_undefined:
  assumes "\<not> closesInThree g n \<or> (\<exists>m. edgeMate (g ! n) = Some m \<and> \<not> closesInThree g m)"
  shows "computeInCircleDeterminant g n = Inr None"
  using assms
  by (auto simp: computeInCircleDeterminant_def closesInThree_def Let_def)

lemma incircle_mate_self_loop:
  assumes "computeInCircleDeterminant g n = Inr (Some d)" and "edgeMate (g ! n) = Some m"
    and "fsucc g m = m" and "xc (g ! fsucc g m) = xc (g ! n)" and "yc (g ! fsucc g m) = yc (g ! n)"
  shows "d = 0"
  using assms
  by (auto simp: computeInCircleDeterminant_def Let_def tripleProduct_def
      split: if_splits option.splits)

text \<open>
  What holds of the flips. A step of \<^verbatim>\<open>cleanupTriangulation\<close> changes the face links only
  if the determinant at the node is defined and strictly positive (\<open>cleanupStep_flip\<close>);
  the face of the node is then a triangle, and so is the face of its mate when the node
  after the mate has the coordinates of the node, which \<^verbatim>\<open>computeInCircleDeterminant\<close>
  assumes of its argument.
\<close>

lemma cleanupStep_flip_between_triangles:
  assumes a: "cleanupStep (g, i, found) = Inr (g', i', found')"
    and b: "map faceSuccessor g' \<noteq> map faceSuccessor g"
    and m: "edgeMate (g ! i) = Some m"
    and cx: "xc (g ! fsucc g m) = xc (g ! i)" and cy: "yc (g ! fsucc g m) = yc (g ! i)"
  shows "faceIsTriangle g i \<and> faceIsTriangle g m"
proof -
  from cleanupStep_flip [OF a b] m obtain e where
    e: "computeInCircleDeterminant (setMask i VISITED g) i = Inr (Some e)" "0 < e"
      "faceIsTriangle g i" "closesInThree g m"
    by auto
  have "fsucc g m \<noteq> m"
  proof
    assume s: "fsucc g m = m"
    have "e = 0"
      by (rule incircle_mate_self_loop [OF e(1), of m]) (use m s cx cy in simp_all)
    with e(2) show False by simp
  qed
  with e show ?thesis by (simp add: faceIsTriangle_def)
qed

lemma cleanupStep_hexagon_first_flip:
  "cleanupStep (hexagonTriangulated, 12, False) = Inr (hexagonFlipped, 13, True)"
  by code_simp

text \<open>
  C10 fails on the code. On the graph that \<^verbatim>\<open>earcutSingleLoop\<close> builds from the single
  point \<open>(0,0)\<close>, the two face loops at the edge of node 0 have length 1, so neither is a
  3-cycle; \<^verbatim>\<open>computeInCircleDeterminant\<close> returns the number 0 there, not \<^verbatim>\<open>undefined\<close>. Its
  test \<^verbatim>\<open>nodeA2.faceSuccessor !== nodeA\<close> asks whether three \<^verbatim>\<open>faceSuccessor\<close> steps lead
  back to the start, which a one-node loop passes.
\<close>

theorem incircle_is_number_on_one_node_loops:
  "earcutSingleLoop 20 [(0, 0)] = Inr pointLoop \<and>
   edgeMate (pointLoop ! 0) = Some 1 \<and>
   facePath pointLoop 0 [0] 0 \<and> facePath pointLoop 1 [1] 1 \<and>
   \<not> faceIsTriangle pointLoop 0 \<and> \<not> faceIsTriangle pointLoop 1 \<and>
   computeInCircleDeterminant pointLoop 0 = Inr (Some 0)"
  by code_simp

text \<open>
  C2 fails on the code. \<^verbatim>\<open>earcutSingleLoop\<close> on the hexagon followed by
  \<^verbatim>\<open>cleanupTriangulation\<close> returns a graph in which node 12 has a mate, is neither exterior
  nor a primary edge, lies between two triangles, and has the strictly positive in-circle
  determinant 180. The restart test at the end of the loop body is skipped by the
  \<^verbatim>\<open>continue\<close> taken at the last node, which is already visited in the second pass, so
  the nodes that the flips of the second pass marked unvisited are never examined again.
\<close>

theorem cleanup_leaves_positive_determinant:
  "bindE (earcutSingleLoop 100 hexagon) (cleanupTriangulation 100) = Inr hexagonCleaned \<and>
   edgeMate (hexagonCleaned ! 12) = Some 13 \<and>
   \<not> isMaskSet hexagonCleaned 12 EXTERIOR \<and> \<not> isMaskSet hexagonCleaned 12 PRIMARY_EDGE \<and>
   faceIsTriangle hexagonCleaned 12 \<and> faceIsTriangle hexagonCleaned 13 \<and>
   computeInCircleDeterminant hexagonCleaned 12 = Inr (Some 180)"
  by code_simp

section \<open>Degenerate input\<close>

text \<open>
  The two guards that C8 names do what it says: a failed bridge search leaves the graph
  as it is, and an empty outer loop gives the empty graph.
\<close>

lemma eliminateHole_without_bridge:
  "findHoleBridge fuel g hole outerNode = Inr None \<Longrightarrow>
   eliminateHole fuel hole outerNode applyFilter g = Inr g"
  by (simp add: eliminateHole_def)

lemma earcutSingleLoop_empty: "earcutSingleLoop fuel [] = Inr []"
  by (simp add: earcutSingleLoop_def createFaceLoopFromXAndYArray_def
      assignMasksToNewFaceLoop_def)

text \<open>
  C8 fails on the code. A hole loop without points has fewer than three usable points;
  \<^verbatim>\<open>constructAndSpliceHoles\<close> passes the undefined result of its loop construction to
  \<^verbatim>\<open>getLeftmost\<close>, which reads \<^verbatim>\<open>p.x\<close>, so \<^verbatim>\<open>earcutOuterAndInnerLoops\<close> raises a TypeError
  instead of returning a graph.
\<close>

theorem empty_hole_raises_TypeError:
  "earcutOuterAndInnerLoops 100 [outerSquare, []] = Inl TypeError"
  by code_simp

section \<open>Properties of pinch and joinNeighborsOfEar\<close>

lemma length_pinch [simp]: "length (pinch a b g) = length g"
  by (simp add: pinch_def Let_def)

lemma pinch_fpred:
  "a < length g \<Longrightarrow> b < length g \<Longrightarrow> a \<noteq> b \<Longrightarrow>
   fpred (pinch a b g) n = (if n = a then fpred g b else if n = b then fpred g a else fpred g n)"
  by (simp add: pinch_def Let_def nth_upd)

lemma pinch_fsucc:
  "fpred g a < length g \<Longrightarrow> fpred g b < length g \<Longrightarrow> a \<noteq> b \<Longrightarrow>
   fsucc (pinch a b g) n =
     (if n = fpred g a then b else if n = fpred g b then a else fsucc g n)"
  by (simp add: pinch_def Let_def nth_upd)

lemma pinch_other [simp]:
  "xc (pinch a b g ! n) = xc (g ! n)" "yc (pinch a b g ! n) = yc (g ! n)"
  "steiner (pinch a b g ! n) = steiner (g ! n)" "edgeMate (pinch a b g ! n) = edgeMate (g ! n)"
  "maskBits (pinch a b g ! n) = maskBits (g ! n)"
  by (simp_all add: pinch_def Let_def nth_upd)

lemma unlinkZ_fields [simp]:
  "length (unlinkZ ear g) = length g"
  "faceSuccessor (unlinkZ ear g ! n) = faceSuccessor (g ! n)"
  "facePredecessor (unlinkZ ear g ! n) = facePredecessor (g ! n)"
  "xc (unlinkZ ear g ! n) = xc (g ! n)" "yc (unlinkZ ear g ! n) = yc (g ! n)"
  "steiner (unlinkZ ear g ! n) = steiner (g ! n)" "edgeMate (unlinkZ ear g ! n) = edgeMate (g ! n)"
  by (simp_all add: unlinkZ_def Let_def nth_upd split: option.splits)

lemma joinLinks_prepared:
  "joinLinks ear g =
     Inr (pinch (fpred (pinch (fsucc (joinPrepared ear g) ear) (Suc (length g)) (joinPrepared ear g)) ear)
            (length g) (pinch (fsucc (joinPrepared ear g) ear) (Suc (length g)) (joinPrepared ear g)))"
  by (simp add: joinLinks_def joinPrepared_def createEdgeXYZXYZ_def Let_def newHalfEdge_def)

lemma length_joinPrepared [simp]: "length (joinPrepared ear g) = Suc (Suc (length g))"
  by (simp add: joinPrepared_def Let_def)

lemma joinPrepared_old:
  "n < length g \<Longrightarrow>
   fsucc (joinPrepared ear g) n = fsucc g n \<and> fpred (joinPrepared ear g) n = fpred g n \<and>
   xc (joinPrepared ear g ! n) = xc (g ! n) \<and> yc (joinPrepared ear g ! n) = yc (g ! n) \<and>
   steiner (joinPrepared ear g ! n) = steiner (g ! n)"
  by (simp add: joinPrepared_def Let_def nth_append)

lemma joinPrepared_alpha:
  "fsucc (joinPrepared ear g) (length g) = Suc (length g) \<and>
   fpred (joinPrepared ear g) (length g) = Suc (length g) \<and>
   xc (joinPrepared ear g ! length g) = xc (g ! fpred g ear) \<and>
   yc (joinPrepared ear g ! length g) = yc (g ! fpred g ear) \<and>
   \<not> steiner (joinPrepared ear g ! length g)"
  by (simp add: joinPrepared_def Let_def nth_append newHalfEdge_def)

lemma joinPrepared_beta:
  "fsucc (joinPrepared ear g) (Suc (length g)) = length g \<and>
   fpred (joinPrepared ear g) (Suc (length g)) = length g \<and>
   xc (joinPrepared ear g ! Suc (length g)) = xc (g ! fsucc g ear) \<and>
   yc (joinPrepared ear g ! Suc (length g)) = yc (g ! fsucc g ear) \<and>
   \<not> steiner (joinPrepared ear g ! Suc (length g))"
  by (simp add: joinPrepared_def Let_def nth_append newHalfEdge_def)

lemma wfLinksD:
  "wfLinks g \<Longrightarrow> n < length g \<Longrightarrow>
   fsucc g n < length g \<and> fpred g n < length g \<and> fpred g (fsucc g n) = n \<and> fsucc g (fpred g n) = n"
  by (simp add: wfLinks_def list_all_iff)

lemma wfLinksI:
  "(\<And>n. n < length g \<Longrightarrow>
      fsucc g n < length g \<and> fpred g n < length g \<and> fpred g (fsucc g n) = n \<and> fsucc g (fpred g n) = n)
   \<Longrightarrow> wfLinks g"
  by (simp add: wfLinks_def list_all_iff)

lemma wfLinks_pinch:
  assumes wf: "wfLinks g" and a: "a < length g" and b: "b < length g"
  shows "wfLinks (pinch a b g)"
proof (cases "a = b")
  case True
  with wf show ?thesis by (simp add: pinch_def)
next
  case False
  note pa = wfLinksD [OF wf a] and pb = wfLinksD [OF wf b]
  have fp: "\<And>n. fpred (pinch a b g) n =
      (if n = a then fpred g b else if n = b then fpred g a else fpred g n)"
    using pinch_fpred [OF a b False] .
  have fs: "\<And>n. fsucc (pinch a b g) n =
      (if n = fpred g a then b else if n = fpred g b then a else fsucc g n)"
    using pinch_fsucc [of g a b] pa pb False by simp
  show ?thesis
  proof (rule wfLinksI)
    fix n assume "n < length (pinch a b g)"
    then have n: "n < length g" by simp
    note pn = wfLinksD [OF wf n]
    have 1: "fsucc (pinch a b g) n < length g" using pn a b by (simp add: fs)
    have 2: "fpred (pinch a b g) n < length g" using pn pa pb by (simp add: fp)
    have 3: "fpred (pinch a b g) (fsucc (pinch a b g) n) = n"
      using pn pa pb False by (auto simp: fs fp)
    have 4: "fsucc (pinch a b g) (fpred (pinch a b g) n) = n"
      using pn pa pb False by (auto simp: fs fp)
    from 1 2 3 4 show "fsucc (pinch a b g) n < length (pinch a b g) \<and>
         fpred (pinch a b g) n < length (pinch a b g) \<and>
         fpred (pinch a b g) (fsucc (pinch a b g) n) = n \<and>
         fsucc (pinch a b g) (fpred (pinch a b g) n) = n" by simp
  qed
qed

lemma wfLinks_joinPrepared:
  assumes wf: "wfLinks g"
  shows "wfLinks (joinPrepared r g)"
proof (rule wfLinksI)
  fix n assume "n < length (joinPrepared r g)"
  then consider "n < length g" | "n = length g" | "n = Suc (length g)" by fastforce
  then show "fsucc (joinPrepared r g) n < length (joinPrepared r g) \<and>
        fpred (joinPrepared r g) n < length (joinPrepared r g) \<and>
        fpred (joinPrepared r g) (fsucc (joinPrepared r g) n) = n \<and>
        fsucc (joinPrepared r g) (fpred (joinPrepared r g) n) = n"
  proof cases
    case 1
    with wfLinksD [OF wf 1] show ?thesis
      by (simp add: joinPrepared_old)
  next
    case 2
    then show ?thesis by (simp add: joinPrepared_alpha joinPrepared_beta)
  next
    case 3
    then show ?thesis by (simp add: joinPrepared_alpha joinPrepared_beta)
  qed
qed

lemma sameShape_refl [simp]: "sameShape g g"
  by (simp add: sameShape_def)

lemma sameShape_trans: "sameShape g g' \<Longrightarrow> sameShape g' g'' \<Longrightarrow> sameShape g g''"
  by (simp add: sameShape_def)

lemma sameShape_setMask [simp]: "sameShape g (setMask n m g)"
  by (simp add: sameShape_def setMask_def nth_upd)

lemma setMaskWalk_sameShape:
  "setMaskWalk k seed n m g = Inr g' \<Longrightarrow> sameShape g g'"
proof (induction k arbitrary: n g)
  case 0
  then show ?case by simp
next
  case (Suc k)
  show ?case
  proof (cases "fsucc (setMask n m g) n = seed")
    case True
    with Suc.prems show ?thesis by (auto simp: Let_def)
  next
    case False
    with Suc.prems have "setMaskWalk k seed (fsucc (setMask n m g) n) m (setMask n m g) = Inr g'"
      by (simp add: Let_def)
    from Suc.IH [OF this] show ?thesis
      using sameShape_trans [OF sameShape_setMask] by blast
  qed
qed

lemma setMaskWalk_error: "setMaskWalk k seed n m g = Inl e \<Longrightarrow> e = OutOfFuel"
  by (induction k arbitrary: n g) (auto simp: Let_def split: if_splits)

lemma wfLinks_sameShape: "sameShape g g' \<Longrightarrow> wfLinks g \<Longrightarrow> wfLinks g'"
  by (simp add: sameShape_def wfLinks_def list_all_iff)

lemma filterRemoves_sameShape: "sameShape g g' \<Longrightarrow> filterRemoves g' r = filterRemoves g r"
  by (simp add: sameShape_def filterRemoves_def signedTriangleArea_def xyOf_def)

section \<open>Properties of filterPoints\<close>

lemma joinLinks_removed:
  assumes wf: "wfLinks g" and r: "r < length g"
  shows "\<exists>g1. joinLinks r g = Inr g1 \<and> wfLinks g1 \<and> length g1 = Suc (Suc (length g)) \<and>
           fpred g1 r < length g1 \<and> fpred g1 r \<noteq> r \<and>
           steiner (g1 ! r) = steiner (g ! r) \<and> xc (g1 ! r) = xc (g ! r) \<and> yc (g1 ! r) = yc (g ! r) \<and>
           xc (g1 ! fsucc g1 r) = xc (g ! fsucc g r) \<and> yc (g1 ! fsucc g1 r) = yc (g ! fsucc g r) \<and>
           xc (g1 ! fpred g1 r) = xc (g ! fpred g r) \<and> yc (g1 ! fpred g1 r) = yc (g ! fpred g r)"
proof -
  define gp where "gp = joinPrepared r g"
  define c where "c = fsucc g r"
  define a where "a = fpred g r"
  define al where "al = length g"
  define be where "be = Suc (length g)"
  define g4 where "g4 = pinch c be gp"
  define g5 where "g5 = pinch (fpred g4 r) al g4"
  note wr = wfLinksD [OF wf r]
  have c: "c < length g" and a: "a < length g" using wr by (simp_all add: c_def a_def)
  note wc = wfLinksD [OF wf c] and wa = wfLinksD [OF wf a]
  have len: "length gp = Suc (Suc (length g))" by (simp add: gp_def)
  have old: "\<And>n. n < length g \<Longrightarrow> fsucc gp n = fsucc g n \<and> fpred gp n = fpred g n \<and>
      xc (gp ! n) = xc (g ! n) \<and> yc (gp ! n) = yc (g ! n) \<and> steiner (gp ! n) = steiner (g ! n)"
    unfolding gp_def by (rule joinPrepared_old)
  have alp: "fsucc gp al = be" "fpred gp al = be" "xc (gp ! al) = xc (g ! a)" "yc (gp ! al) = yc (g ! a)"
    using joinPrepared_alpha [of r g] by (simp_all add: gp_def al_def be_def a_def)
  have bet: "fsucc gp be = al" "fpred gp be = al" "xc (gp ! be) = xc (g ! c)" "yc (gp ! be) = yc (g ! c)"
    using joinPrepared_beta [of r g] by (simp_all add: gp_def al_def be_def c_def)
  have wgp: "wfLinks gp" unfolding gp_def by (rule wfLinks_joinPrepared [OF wf])
  have cbe: "c \<noteq> be" "c < length gp" "be < length gp" "al < length gp" "r \<noteq> be" "r \<noteq> al"
    "a \<noteq> be" "a \<noteq> al"
    using c a r by (simp_all add: be_def al_def len)
  have jl: "joinLinks r g = Inr g5"
    using old [OF r] by (simp add: joinLinks_prepared g5_def g4_def gp_def c_def be_def al_def)
  have pc: "fpred g c = r" using wr by (simp add: c_def)
  have fp4: "\<And>n. fpred g4 n = (if n = c then al else if n = be then r else fpred gp n)"
    using pinch_fpred [OF cbe(2) cbe(3) cbe(1)] old [OF c] pc bet
    by (simp add: g4_def)
  have fs4: "\<And>n. fsucc g4 n = (if n = r then be else if n = al then c else fsucc gp n)"
    using pinch_fsucc [of gp c be] old [OF c] pc bet cbe r
    by (simp add: g4_def len)
  have wg4: "wfLinks g4" unfolding g4_def by (rule wfLinks_pinch [OF wgp cbe(2) cbe(3)])
  have len4: "length g4 = Suc (Suc (length g))" by (simp add: g4_def len)
  have r4: "r < length g4" using r by (simp add: len4)
  have wg5: "wfLinks g5" unfolding g5_def
    using wfLinks_pinch [OF wg4 _ ] wfLinksD [OF wg4 r4] cbe(4) by (simp add: g4_def)
  have len5: "length g5 = Suc (Suc (length g))" by (simp add: g5_def len4)
  have oth: "\<And>n. xc (g5 ! n) = xc (gp ! n) \<and> yc (g5 ! n) = yc (gp ! n) \<and>
      steiner (g5 ! n) = steiner (gp ! n)"
    by (simp add: g5_def g4_def)
  show ?thesis
  proof (cases "r = c")
    case True
    then have "fpred g4 r = al" by (simp add: fp4)
    then have g54: "g5 = g4" by (simp add: g5_def pinch_def)
    have ar: "a = r" using True wr by (simp add: a_def c_def)
    have "fpred g5 r = al" "fsucc g5 r = be"
      using True by (simp_all add: g54 fp4 fs4)
    with jl wg5 len5 oth old [OF r] alp bet cbe ar show ?thesis
      by (simp add: a_def c_def al_def)
  next
    case False
    have ar: "a \<noteq> r"
    proof
      assume "a = r"
      with wr have "fsucc g r = r" by (simp add: a_def)
      with False show False by (simp add: c_def)
    qed
    have f4r: "fpred g4 r = a" using False cbe old [OF r] by (simp add: fp4 a_def)
    have g5: "g5 = pinch a al g4" by (simp add: g5_def f4r)
    have a4: "a < length g4" "al < length g4" using a by (simp_all add: len4 al_def)
    have fp5: "\<And>n. fpred g5 n = (if n = a then fpred g4 al else if n = al then fpred g4 a else fpred g4 n)"
      unfolding g5 using pinch_fpred [OF a4 cbe(8)] .
    have f4a: "fpred g4 a = (if a = c then al else fpred g a)"
      using cbe old [OF a] by (simp add: fp4)
    have "al \<noteq> c" "al \<noteq> be" using c by (simp_all add: al_def be_def)
    then have f4al: "fpred g4 al = be" using alp by (simp add: fp4)
    have "fpred g4 a < length g4"
      using wa by (simp add: f4a len4 al_def)
    moreover have "fpred g4 al < length g4"
      by (simp add: f4al len4 be_def)
    ultimately have "fpred g4 a < length g4" "fpred g4 al < length g4" by simp_all
    from pinch_fsucc [OF this cbe(8)]
    have fs5: "\<And>n. fsucc g5 n = (if n = fpred g4 a then al else if n = be then a else fsucc g4 n)"
      by (simp add: g5 f4al)
    have rn: "r \<noteq> fpred g4 a"
    proof
      assume e: "r = fpred g4 a"
      show False
      proof (cases "a = c")
        case True
        with f4a have "fpred g4 a = al" by simp
        with e cbe(6) show False by simp
      next
        case False
        with e have "r = fpred g a" by (simp add: f4a)
        with wa have "fsucc g r = a" by simp
        with False show False by (simp add: c_def)
      qed
    qed
    have "fpred g5 r = a" using ar cbe by (simp add: fp5 f4r)
    moreover have "fsucc g5 r = be" using rn cbe by (simp add: fs5 fs4)
    ultimately show ?thesis
      using jl wg5 len5 oth old [OF r] old [OF a] alp bet cbe ar a
      by (simp add: a_def c_def)
  qed
qed

lemma joinNeighborsOfEar_error:
  assumes "wfLinks g" "r < length g" "joinNeighborsOfEar k r g = Inl e"
  shows "e = OutOfFuel"
proof -
  from joinLinks_removed [OF assms(1,2)] obtain g1 where "joinLinks r g = Inr g1" by blast
  with assms(3) show ?thesis
    by (auto simp: joinNeighborsOfEar_def setMaskAroundFace_def dest: setMaskWalk_error)
qed

lemma joinNeighborsOfEar_removed:
  assumes wf: "wfLinks g" and r: "r < length g" and j: "joinNeighborsOfEar k r g = Inr g2"
  shows "wfLinks g2 \<and> length g2 = Suc (Suc (length g)) \<and> fpred g2 r < length g2 \<and>
         fpred g2 r \<noteq> r \<and> filterRemoves g2 r = filterRemoves g r"
proof -
  from joinLinks_removed [OF wf r] obtain g1 where g1: "joinLinks r g = Inr g1" "wfLinks g1"
      "length g1 = Suc (Suc (length g))" "fpred g1 r < length g1" "fpred g1 r \<noteq> r"
      "steiner (g1 ! r) = steiner (g ! r)" "xc (g1 ! r) = xc (g ! r)" "yc (g1 ! r) = yc (g ! r)"
      "xc (g1 ! fsucc g1 r) = xc (g ! fsucc g r)" "yc (g1 ! fsucc g1 r) = yc (g ! fsucc g r)"
      "xc (g1 ! fpred g1 r) = xc (g ! fpred g r)" "yc (g1 ! fpred g1 r) = yc (g ! fpred g r)"
    by blast
  from j g1(1) have "setMaskWalk k r r TRIANGULATED_NODE_MASK g1 = Inr g2"
    by (simp add: joinNeighborsOfEar_def setMaskAroundFace_def)
  then have ss: "sameShape g1 g2" by (rule setMaskWalk_sameShape)
  have "filterRemoves g1 r = filterRemoves g r"
    using g1 by (simp add: filterRemoves_def signedTriangleArea_def xyOf_def)
  with ss g1 show ?thesis
    using wfLinks_sameShape [OF ss] filterRemoves_sameShape [OF ss]
    by (simp add: sameShape_def)
qed

text \<open>
  After \<^verbatim>\<open>joinNeighborsOfEar(p)\<close> the node \<^verbatim>\<open>p.facePredecessor\<close> lies in the face that was cut
  off, and \<open>p\<close> still satisfies the removal test there. So once a vertex has been cut,
  the loop of \<^verbatim>\<open>filterPoints\<close> cuts again and again and never leaves.
\<close>

lemma filterLoop_diverges:
  "wfLinks g \<Longrightarrow> p < length g \<Longrightarrow>
   filterRemoves g p \<or> (e = p \<and> filterRemoves g (fsucc g p)) \<Longrightarrow>
   filterLoop fuel g p e = Inl OutOfFuel"
proof (induction fuel arbitrary: g p e rule: less_induct)
  case (less fuel)
  show ?case
  proof (cases fuel)
    case 0
    then show ?thesis by simp
  next
    case (Suc k)
    show ?thesis
    proof (cases "filterRemoves g p")
      case True
      show ?thesis
      proof (cases "joinNeighborsOfEar k p g")
        case (Inl err)
        with joinNeighborsOfEar_error [OF less.prems(1,2) Inl] True Suc show ?thesis by simp
      next
        case (Inr g2)
        from joinNeighborsOfEar_removed [OF less.prems(1,2) Inr] True
        have g2: "wfLinks g2" "fpred g2 p < length g2" "fpred g2 p \<noteq> p" "filterRemoves g2 p"
          "length g2 = Suc (Suc (length g))"
          by simp_all
        have bk: "fsucc g2 (fpred g2 p) = p"
          using wfLinksD [OF g2(1), of p] g2(5) less.prems(2) by simp
        have "filterLoop k g2 (fpred g2 p) (fpred g2 p) = Inl OutOfFuel"
          using less.IH [of k g2 "fpred g2 p" "fpred g2 p"] g2 bk Suc by simp
        with True Inr Suc g2 bk show ?thesis by (simp add: Let_def)
      qed
    next
      case False
      with less.prems(3) have ep: "e = p" and rs: "filterRemoves g (fsucc g p)" by auto
      from rs False have ne: "fsucc g p \<noteq> p" by auto
      have "filterLoop k g (fsucc g p) p = Inl OutOfFuel"
        using less.IH [of k g "fsucc g p" p] rs less.prems(1) wfLinksD [OF less.prems(1,2)] Suc
        by simp
      with False Suc ep ne show ?thesis by (simp add: Let_def)
    qed
  qed
qed

lemma filterLoop_returns_unchanged:
  "wfLinks g \<Longrightarrow> p < length g \<Longrightarrow> filterLoop fuel g p e = Inr (g', res) \<Longrightarrow>
   g' = g \<and> res = Some e"
proof (induction fuel arbitrary: p)
  case 0
  then show ?case by simp
next
  case (Suc k)
  show ?case
  proof (cases "filterRemoves g p")
    case True
    with filterLoop_diverges [OF Suc.prems(1,2), of e "Suc k"] Suc.prems(3) show ?thesis by simp
  next
    case False
    show ?thesis
    proof (cases "fsucc g p = e")
      case True
      with False Suc.prems(3) show ?thesis by (simp add: Let_def)
    next
      case ne: False
      with False Suc.prems(3) have "filterLoop k g (fsucc g p) e = Inr (g', res)"
        by (simp add: Let_def)
      with Suc.IH [of "fsucc g p"] Suc.prems(1) wfLinksD [OF Suc.prems(1,2)] show ?thesis
        by simp
    qed
  qed
qed

text \<open>
  C7 fails on the code. The state is the one in which \<^verbatim>\<open>earcutOuterAndInnerLoops\<close>, on
  the outer loop \<open>collinearOuter\<close> and the hole \<open>farHole\<close>, calls
  \<^verbatim>\<open>filterPoints(outerNode, outerNode.faceSuccessor)\<close>. The outer node is exactly collinear
  with its neighbours and is cut; the call then never returns, whatever the fuel: it
  neither ends with a pass that removes nothing nor returns \<^verbatim>\<open>undefined\<close>.
\<close>

lemma collinearWithHole_reached:
  "bindE (createFaceLoopFromXAndYArray 100 collinearOuter True True [])
     (\<lambda>r. constructHoles 100 [farHole] [] (snd r)) = Inr ([11], collinearWithHole) \<and>
   eliminateHole 100 11 (Some 0) True collinearWithHole = Inr collinearWithHole"
  by code_simp

theorem filterPoints_never_returns_after_cut:
  "filterPoints fuel collinearWithHole (Some 0) (Some (fsucc collinearWithHole 0)) = Inl OutOfFuel"
proof -
  have wf: "wfLinks collinearWithHole" by code_simp
  have len: "0 < length collinearWithHole" by code_simp
  have rem: "filterRemoves collinearWithHole 0" by code_simp
  from filterLoop_diverges [OF wf len, of _ fuel] rem show ?thesis
    by (simp add: filterPoints_def)
qed

text \<open>
  The state \<open>twoSteinerSpliced\<close> is the one in which \<^verbatim>\<open>earcutOuterAndInnerLoops\<close>, on the
  outer square and the one-point holes \<open>(2,2)\<close> and \<open>(3,2)\<close>, calls
  \<^verbatim>\<open>filterPoints(b, b.faceSuccessor)\<close> in \<^verbatim>\<open>eliminateHole\<close> for the second hole: the first
  hole is spliced at node 0 and the two calls of \<^verbatim>\<open>filterPoints\<close> after it return at once;
  the bridge of the second hole starts at node 13, and \<^verbatim>\<open>splitPolygon\<close> returns \<open>b = 14\<close>.
\<close>

lemma twoSteinerSpliced_reached:
  "bindE (createFaceLoopFromXAndYArray 100 outerSquare True True [])
     (\<lambda>r. bindE (constructHoles 100 steinerHoles [] (snd r))
       (\<lambda>q. bindE (eliminateHole 100 9 (fst r) True (snd q))
         (\<lambda>g1. bindE (filterPoints 100 g1 (fst r) (Some (fsucc g1 0)))
           (\<lambda>f. bindE (findHoleBridge 100 (fst f) 11 (snd f))
             (\<lambda>b. Inr (fst r, fst q, snd f, b, splitPolygon 13 11 (fst f)))))))
   = Inr (Some 0, [9, 11], Some 2, Some 13, 14, twoSteinerSpliced)"
  by code_simp


section \<open>Properties of findHoleBridge\<close>

lemma bridgeSelect_choice:
  assumes "facePath g p ns m0" and "m0 \<notin> set ns" and "length ns < fuel"
    and "hx = xc (g ! hole)" and "hy = yc (g ! hole)"
    and "bridgeChoice g hole m0 (filter (bridgeQualifies g hole qx m0) seen) m"
    and "tanMin = (if filter (bridgeQualifies g hole qx m0) seen = [] then None
                   else Some (bridgeTan g hx hy m))"
  shows "\<exists>r. bridgeSelect fuel g hole hx hy qx m0 p m tanMin = Inr r \<and>
             bridgeChoice g hole m0 (filter (bridgeQualifies g hole qx m0) (seen @ ns)) r"
  using assms
proof (induction ns arbitrary: p fuel seen m tanMin)
  case Nil
  then obtain k where "fuel = Suc k" by (cases fuel) auto
  with Nil show ?case by simp
next
  case (Cons n ns)
  then obtain k where k: "fuel = Suc k" by (cases fuel) auto
  from Cons.prems have pn: "p = n" and path: "facePath g (fsucc g n) ns m0"
    and ne: "n \<noteq> m0" and nin: "m0 \<notin> set ns" and len: "length ns < k"
    using k by auto
  let ?Q = "bridgeQualifies g hole qx m0"
  let ?take = "bridgeCandidate g hx hy qx m0 n \<and> bridgeBetter g hx hy m tanMin n \<and>
               locallyInside g n hole"
  show ?case
  proof (cases ?take)
    case True
    then have qn: "?Q n" using Cons.prems(4,5) by (simp add: bridgeQualifies_def)
    have ch: "bridgeChoice g hole m0 (filter ?Q (seen @ [n])) n"
      using True qn Cons.prems(4-7)
      by (auto simp: bridgeChoice_def bridgeBetter_def Let_def filter_empty_conv split: if_splits)
    have tm: "Some (bridgeTan g hx hy n) =
        (if filter ?Q (seen @ [n]) = [] then None else Some (bridgeTan g hx hy n))"
      using qn by simp
    from Cons.IH [OF path nin len Cons.prems(4,5) ch tm] True pn ne k
    show ?thesis by simp
  next
    case False
    have ch: "bridgeChoice g hole m0 (filter ?Q (seen @ [n])) m"
    proof (cases "?Q n")
      case qn: True
      with False have nb: "\<not> bridgeBetter g hx hy m tanMin n"
        using Cons.prems(4,5) by (simp add: bridgeQualifies_def)
      with qn Cons.prems(4-7) show ?thesis
        by (auto simp: bridgeChoice_def bridgeBetter_def Let_def filter_empty_conv split: if_splits)
    next
      case qn: False
      with Cons.prems(6) show ?thesis by simp
    qed
    have tm: "tanMin = (if filter ?Q (seen @ [n]) = [] then None else Some (bridgeTan g hx hy m))"
    proof (cases "?Q n")
      case qn: True
      with False have nb: "\<not> bridgeBetter g hx hy m tanMin n"
        using Cons.prems(4,5) by (simp add: bridgeQualifies_def)
      with qn Cons.prems(7) show ?thesis
        by (auto simp: bridgeBetter_def filter_empty_conv split: if_splits)
    next
      case qn: False
      with Cons.prems(7) show ?thesis by simp
    qed
    from Cons.IH [OF path nin len Cons.prems(4,5) ch tm] False pn ne k
    show ?thesis by auto
  qed
qed

lemma bridgeScan_Suc:
  "bridgeScan (Suc k) g hx hy outer p qm =
     (let x = crossX g hy p;
          hit = (edgeCrossed g hx hy p \<and> (case qm of None \<Rightarrow> True | Some (qx, m) \<Rightarrow> x > qx))
      in if hit \<and> x = hx \<and> hy = yc (g ! p) then Inr (Inl p)
         else if hit \<and> x = hx \<and> hy = yc (g ! fsucc g p) then Inr (Inl (fsucc g p))
         else let qm1 = (if hit then Some (x, lesserEnd g p) else qm)
              in if fsucc g p = outer then Inr (Inr qm1)
                 else bridgeScan k g hx hy outer (fsucc g p) qm1)"
  unfolding bridgeScan.simps crossX_def edgeCrossed_def lesserEnd_def Let_def
  by (simp only: conj_assoc)

lemma bridgeScan_choice:
  assumes "facePath g p ns outer" and "ns \<noteq> []" and "outer \<notin> set (tl ns)"
    and "length ns \<le> fuel"
    and "\<forall>e \<in> set ns. edgeCrossed g hx hy e \<longrightarrow> crossX g hy e \<noteq> hx"
    and "scanChoice g hy (filter (edgeCrossed g hx hy) seen) qm"
  shows "\<exists>qm'. bridgeScan fuel g hx hy outer p qm = Inr (Inr qm') \<and>
            scanChoice g hy (filter (edgeCrossed g hx hy) (seen @ ns)) qm'"
  using assms
proof (induction ns arbitrary: p fuel seen qm)
  case Nil
  then show ?case by simp
next
  case (Cons n ns)
  then obtain k where k: "fuel = Suc k" by (cases fuel) auto
  from Cons.prems have pn: "p = n" and path: "facePath g (fsucc g n) ns outer" by auto
  let ?x = "crossX g hy n"
  let ?hit = "edgeCrossed g hx hy n \<and> (case qm of None \<Rightarrow> True | Some (qx, m) \<Rightarrow> ?x > qx)"
  let ?qm1 = "if ?hit then Some (?x, lesserEnd g n) else qm"
  have nt: "edgeCrossed g hx hy n \<Longrightarrow> ?x \<noteq> hx" using Cons.prems(5) by simp
  have ch: "scanChoice g hy (filter (edgeCrossed g hx hy) (seen @ [n])) ?qm1"
  proof (cases "edgeCrossed g hx hy n")
    case False
    with Cons.prems(6) show ?thesis by simp
  next
    case True
    let ?hits = "filter (edgeCrossed g hx hy) seen"
    have fl: "filter (edgeCrossed g hx hy) (seen @ [n]) = ?hits @ [n]"
      using True by simp
    show ?thesis
    proof (cases qm)
      case None
      with Cons.prems(6) have "?hits = []"
        by (simp add: scanChoice_def split: if_splits)
      with True None show ?thesis by (simp add: scanChoice_def firstLargest_def)
    next
      case (Some qxm)
      obtain qx m where qxm: "qxm = (qx, m)" by (cases qxm)
      from Cons.prems(6) Some qxm have ne: "?hits \<noteq> []"
        by (simp add: scanChoice_def split: if_splits)
      with Cons.prems(6) Some qxm obtain e where e: "firstLargest g hy ?hits e"
        "qx = crossX g hy e" "m = lesserEnd g e"
        unfolding scanChoice_def by auto
      from e(1) have em: "e \<in> set ?hits"
        and emax: "\<And>e'. e' \<in> set ?hits \<Longrightarrow> crossX g hy e' \<le> crossX g hy e"
        and efirst: "\<And>e'. e' \<in> set (takeWhile (\<lambda>n. n \<noteq> e) ?hits) \<Longrightarrow> crossX g hy e' < crossX g hy e"
        unfolding firstLargest_def by blast+
      show ?thesis
      proof (cases "?x > qx")
        case gt: True
        have q1: "?qm1 = Some (?x, lesserEnd g n)" using gt True Some qxm by simp
        have mx: "crossX g hy e' < ?x" if "e' \<in> set ?hits" for e'
          using emax [OF that] gt e(2) by simp
        have "firstLargest g hy (?hits @ [n]) n"
          unfolding firstLargest_def
        proof (intro conjI ballI)
          show "n \<in> set (?hits @ [n])" by simp
        next
          fix e' assume "e' \<in> set (?hits @ [n])"
          then show "crossX g hy e' \<le> crossX g hy n" using mx by force
        next
          fix e' assume a: "e' \<in> set (takeWhile (\<lambda>k. k \<noteq> n) (?hits @ [n]))"
          then have "e' \<in> set (?hits @ [n])" by (rule set_takeWhileD [THEN conjunct1])
          moreover from a have "e' \<noteq> n" by (rule set_takeWhileD [THEN conjunct2])
          ultimately have "e' \<in> set ?hits" by simp
          then show "crossX g hy e' < crossX g hy n" by (rule mx)
        qed
        then show ?thesis
          unfolding scanChoice_def fl q1 by auto
      next
        case le: False
        have q1: "?qm1 = Some (crossX g hy e, lesserEnd g e)" using le Some qxm e by simp
        have nle: "crossX g hy n \<le> crossX g hy e" using le e(2) by simp
        have tw: "takeWhile (\<lambda>k. k \<noteq> e) (?hits @ [n]) = takeWhile (\<lambda>k. k \<noteq> e) ?hits"
          using em by (intro takeWhile_append1 [of e]) auto
        have "firstLargest g hy (?hits @ [n]) e"
          unfolding firstLargest_def tw
        proof (intro conjI ballI)
          show "e \<in> set (?hits @ [n])" using em by simp
        next
          fix e' assume "e' \<in> set (?hits @ [n])"
          then show "crossX g hy e' \<le> crossX g hy e" using emax nle by auto
        next
          fix e' assume "e' \<in> set (takeWhile (\<lambda>k. k \<noteq> e) ?hits)"
          then show "crossX g hy e' < crossX g hy e" by (rule efirst)
        qed
        then show ?thesis
          unfolding scanChoice_def fl q1 by auto
      qed
    qed
  qed
  have step: "bridgeScan fuel g hx hy outer p qm =
      (if fsucc g n = outer then Inr (Inr ?qm1) else bridgeScan k g hx hy outer (fsucc g n) ?qm1)"
  proof (cases "edgeCrossed g hx hy n")
    case True
    with nt have "?x \<noteq> hx" by simp
    then show ?thesis unfolding k pn bridgeScan_Suc by (simp add: Let_def)
  next
    case False
    then show ?thesis unfolding k pn bridgeScan_Suc by (simp add: Let_def)
  qed
  show ?case
  proof (cases ns)
    case Nil
    with path have "fsucc g n = outer" by simp
    with step ch Nil show ?thesis by simp
  next
    case c: (Cons n' ns')
    with path have "fsucc g n = n'" by simp
    with c Cons.prems(3) have ne: "fsucc g n \<noteq> outer" by auto
    have a: "ns \<noteq> []" "outer \<notin> set (tl ns)" "length ns \<le> k"
      "\<forall>e \<in> set ns. edgeCrossed g hx hy e \<longrightarrow> crossX g hy e \<noteq> hx"
      using c Cons.prems k by auto
    from Cons.IH [OF path a ch] step ne show ?thesis by simp
  qed
qed


lemma facePath_append:
  "facePath g p (xs @ ys) q \<longleftrightarrow> (\<exists>r. facePath g p xs r \<and> facePath g r ys q)"
  by (induction xs arbitrary: p) auto

lemma facePath_hd: "facePath g p es q \<Longrightarrow> es \<noteq> [] \<Longrightarrow> hd es = p"
  by (cases es) auto

lemma facePath_succ_mem:
  "facePath g p es q \<Longrightarrow> e \<in> set es \<Longrightarrow> fsucc g e \<in> set es \<or> fsucc g e = q"
proof (induction es arbitrary: p)
  case Nil
  then show ?case by simp
next
  case (Cons n ns)
  show ?case
  proof (cases ns)
    case Nil
    with Cons.prems show ?thesis by auto
  next
    case c: (Cons n' ns')
    with Cons.prems(1) have h: "fsucc g n = n'" and path: "facePath g (fsucc g n) ns q" by auto
    show ?thesis
    proof (cases "e = n")
      case True
      with h c show ?thesis by simp
    next
      case False
      with Cons.prems(2) have "e \<in> set ns" by simp
      from Cons.IH [OF path this] show ?thesis by auto
    qed
  qed
qed

lemma loopAfter_split:
  assumes "m \<notin> set xs"
  shows "loopAfter (xs @ m # ys) m = ys @ xs"
proof -
  from assms have a: "\<forall>x \<in> set xs. x \<noteq> m" by auto
  then have "dropWhile (\<lambda>n. n \<noteq> m) (xs @ m # ys) = m # ys"
    by (simp add: dropWhile_append2)
  moreover from a have "takeWhile (\<lambda>n. n \<noteq> m) (xs @ m # ys) = xs"
    by (simp add: takeWhile_append2)
  ultimately show ?thesis by (simp add: loopAfter_def)
qed

lemma facePath_rotate:
  assumes path: "facePath g outer es outer" and d: "distinct es" and m: "m \<in> set es"
  shows "facePath g (fsucc g m) (loopAfter es m) m \<and> m \<notin> set (loopAfter es m) \<and>
         length (loopAfter es m) < length es"
proof -
  from m obtain xs ys where es: "es = xs @ m # ys" and nx: "m \<notin> set xs"
    by (auto dest: split_list_first)
  have la: "loopAfter es m = ys @ xs" unfolding es by (rule loopAfter_split [OF nx])
  from path have "\<exists>r. facePath g outer xs r \<and> facePath g r (m # ys) outer"
    unfolding es facePath_append .
  then have p1: "facePath g outer xs m" and p2: "facePath g (fsucc g m) ys outer" by auto
  have "facePath g (fsucc g m) (ys @ xs) m"
    unfolding facePath_append using p1 p2 by blast
  moreover have "m \<notin> set (ys @ xs)" using d nx by (auto simp: es)
  moreover have "length (ys @ xs) < length es" by (simp add: es)
  ultimately show ?thesis by (simp add: la)
qed

text \<open>
  C4 (as amended). Let \<open>es\<close> be the face loop of the outer node, and let the hole point
  not touch it: no crossed edge meets the ray at the hole point itself. Then
  \<^verbatim>\<open>findHoleBridge\<close> returns, with enough fuel. If the ray to the left crosses no edge the
  result is \<^verbatim>\<open>undefined\<close>. Otherwise let \<open>e\<close> be the first edge with the largest crossing and
  \<open>m0\<close> its endpoint with the lesser \<open>x\<close>. The result is chosen among the loop vertices
  other than \<open>m0\<close> that lie in the closed triangle of the hole point, the crossing point and
  \<open>m0\<close> (the boundary included), to the left of the hole point, and for which
  \<^verbatim>\<open>locallyInside\<close> holds: it is the one with the least tangent to the ray, ties broken
  toward the larger \<open>x\<close>; if there is no such vertex the result is \<open>m0\<close>.
\<close>

theorem findHoleBridge_selects_bridge:
  assumes path: "facePath g outer es outer" and ne: "es \<noteq> []" and d: "distinct es"
    and len: "length es < fuel"
    and nt: "\<forall>e \<in> set es. edgeCrossed g (xc (g ! hole)) (yc (g ! hole)) e \<longrightarrow>
                crossX g (yc (g ! hole)) e \<noteq> xc (g ! hole)"
  shows "\<exists>r. findHoleBridge fuel g hole (Some outer) = Inr r \<and> bridgeSpec g hole es r"
proof -
  define hx where "hx = xc (g ! hole)"
  define hy where "hy = yc (g ! hole)"
  let ?hits = "filter (edgeCrossed g hx hy) es"
  have hd: "hd es = outer" using path ne by (rule facePath_hd)
  then have es: "es = outer # tl es" using ne by (cases es) auto
  have o: "outer \<notin> set (tl es)" using d es by (metis distinct.simps(2))
  have sc0: "scanChoice g hy (filter (edgeCrossed g hx hy) []) None"
    by (simp add: scanChoice_def)
  from bridgeScan_choice [OF path ne o _ nt [folded hx_def hy_def] sc0, of fuel] len
  obtain qm where scan: "bridgeScan fuel g hx hy outer outer None = Inr (Inr qm)"
    and sc: "scanChoice g hy ?hits qm"
    by auto
  show ?thesis
  proof (cases "?hits = []")
    case True
    with sc have "qm = None" by (simp add: scanChoice_def)
    with scan True show ?thesis
      by (simp add: findHoleBridge_def bridgeSpec_def Let_def hx_def hy_def)
  next
    case False
    with sc obtain e where e: "firstLargest g hy ?hits e"
      and qm: "qm = Some (crossX g hy e, lesserEnd g e)"
      by (auto simp: scanChoice_def)
    let ?qx = "crossX g hy e"
    let ?m0 = "lesserEnd g e"
    from e have eh: "e \<in> set ?hits" by (simp add: firstLargest_def)
    then have ees: "e \<in> set es" and ec: "edgeCrossed g hx hy e" by auto
    with nt have nq: "hx \<noteq> ?qx" by (auto simp: hx_def hy_def)
    from facePath_succ_mem [OF path ees] es have "fsucc g e \<in> set es"
      by (metis list.set_intros(1))
    with ees have m0: "?m0 \<in> set es" by (simp add: lesserEnd_def)
    from facePath_rotate [OF path d m0]
    have rot: "facePath g (fsucc g ?m0) (loopAfter es ?m0) ?m0" "?m0 \<notin> set (loopAfter es ?m0)"
      "length (loopAfter es ?m0) < fuel"
      using len by auto
    have c0: "bridgeChoice g hole ?m0 (filter (bridgeQualifies g hole ?qx ?m0) []) ?m0"
      by (simp add: bridgeChoice_def)
    from bridgeSelect_choice [OF rot hx_def hy_def c0, of None]
    obtain r where sel: "bridgeSelect fuel g hole hx hy ?qx ?m0 (fsucc g ?m0) ?m0 None = Inr r"
      and ch: "bridgeChoice g hole ?m0
                 (filter (bridgeQualifies g hole ?qx ?m0) (loopAfter es ?m0)) r"
      by auto
    have "findHoleBridge fuel g hole (Some outer) = Inr (Some r)"
      using scan qm nq sel by (simp add: findHoleBridge_def Let_def hx_def hy_def)
    moreover have "bridgeSpec g hole es (Some r)"
      unfolding bridgeSpec_def Let_def using False e ch by (auto simp: hx_def hy_def)
    ultimately show ?thesis by blast
  qed
qed


text \<open>
  The state in which \<^verbatim>\<open>earcutOuterAndInnerLoops\<close> calls \<^verbatim>\<open>findHoleBridge\<close> on the loops
  \<open>zigzagOuter\<close> and \<open>zigzagHole\<close>, and the theorem on it: the edge from \<open>(0,8)\<close> to \<open>(0,0)\<close>
  is crossed at \<open>x = 0\<close>, the candidates are the nodes 2 and 6, and node 2 has the lesser
  tangent.
\<close>

lemma zigzagWithHole_reached:
  "bindE (createFaceLoopFromXAndYArray 100 zigzagOuter True True [])
     (\<lambda>r. bindE (constructHoles 100 [zigzagHole] [] (snd r)) (\<lambda>q. Inr (fst r, q)))
   = Inr (Some 0, [15], zigzagWithHole)"
  by code_simp

theorem findHoleBridge_selects_bridge_witness:
  "facePath zigzagWithHole 0 [0, 2, 4, 6, 8, 10, 12] 0 \<and>
   distinct [0, 2, 4, 6, 8, 10, 12 :: nat] \<and>
   length [0, 2, 4, 6, 8, 10, 12 :: nat] < 20 \<and>
   xc (zigzagWithHole ! 15) = 6 \<and> yc (zigzagWithHole ! 15) = 3 \<and>
   filter (\<lambda>e. edgeCrossed zigzagWithHole 6 3 e \<and> crossX zigzagWithHole 3 e = 6)
     [0, 2, 4, 6, 8, 10, 12] = [] \<and>
   filter (edgeCrossed zigzagWithHole 6 3) [0, 2, 4, 6, 8, 10, 12] = [12] \<and>
   crossX zigzagWithHole 3 12 = 0 \<and> lesserEnd zigzagWithHole 12 = 0 \<and>
   filter (bridgeQualifies zigzagWithHole 15 0 0) (loopAfter [0, 2, 4, 6, 8, 10, 12] 0) = [2, 6] \<and>
   bridgeTan zigzagWithHole 6 3 2 = 1 / 4 \<and> bridgeTan zigzagWithHole 6 3 6 = 1 / 2 \<and>
   findHoleBridge 20 zigzagWithHole 15 (Some 0) = Inr (Some 2)"
proof -
  let ?es = "[0, 2, 4, 6, 8, 10, 12 :: nat]"
  have path: "facePath zigzagWithHole 0 ?es 0" by code_simp
  have ne: "?es \<noteq> []" by simp
  have d: "distinct ?es" by simp
  have len: "length ?es < 20" by simp
  have h: "xc (zigzagWithHole ! 15) = 6" "yc (zigzagWithHole ! 15) = 3" by code_simp+
  have touch: "filter (\<lambda>e. edgeCrossed zigzagWithHole 6 3 e \<and> crossX zigzagWithHole 3 e = 6)
      ?es = []"
    by code_simp
  then have nt: "\<forall>e \<in> set ?es.
      edgeCrossed zigzagWithHole (xc (zigzagWithHole ! 15)) (yc (zigzagWithHole ! 15)) e \<longrightarrow>
      crossX zigzagWithHole (yc (zigzagWithHole ! 15)) e \<noteq> xc (zigzagWithHole ! 15)"
    unfolding h filter_empty_conv by blast
  have hits: "filter (edgeCrossed zigzagWithHole 6 3) ?es = [12]" by code_simp
  have cr: "crossX zigzagWithHole 3 12 = 0" "lesserEnd zigzagWithHole 12 = 0" by code_simp+
  have cands: "filter (bridgeQualifies zigzagWithHole 15 0 0) (loopAfter ?es 0) = [2, 6]"
    by code_simp
  have tans: "bridgeTan zigzagWithHole 6 3 2 = 1 / 4" "bridgeTan zigzagWithHole 6 3 6 = 1 / 2"
    by code_simp+
  from findHoleBridge_selects_bridge [OF path ne d len nt]
  obtain r where r: "findHoleBridge 20 zigzagWithHole 15 (Some 0) = Inr r"
    and sp: "bridgeSpec zigzagWithHole 15 ?es r"
    by blast
  from sp obtain e m where e: "firstLargest zigzagWithHole 3 [12] e" and m: "r = Some m"
    and ch: "bridgeChoice zigzagWithHole 15 (lesserEnd zigzagWithHole e)
               (filter (bridgeQualifies zigzagWithHole 15 (crossX zigzagWithHole 3 e)
                  (lesserEnd zigzagWithHole e)) (loopAfter ?es (lesserEnd zigzagWithHole e))) m"
    unfolding bridgeSpec_def Let_def h hits by auto
  from e have "e = 12" by (simp add: firstLargest_def)
  with ch have "bridgeChoice zigzagWithHole 15 0 [2, 6] m" by (simp add: cr cands)
  then have "m = 2"
    unfolding bridgeChoice_def Let_def h by (auto simp: tans)
  with r m have run: "findHoleBridge 20 zigzagWithHole 15 (Some 0) = Inr (Some 2)" by simp
  from path d len h touch hits cr cands tans run show ?thesis by simp
qed

text \<open>
  C4 as stated fails on the loops \<open>notchedOuter\<close> and \<open>smallHole\<close>. The ray from the hole
  point \<open>(6,2)\<close> crosses the edge from \<open>(0,8)\<close> to \<open>(0,0)\<close> at \<open>(0,2)\<close>, and the endpoint is
  node 0 at \<open>(0,0)\<close>. No vertex of the outer loop lies strictly inside the triangle
  \<open>(6,2), (0,2), (0,0)\<close>, so by the claim the bridge is node 0; \<^verbatim>\<open>findHoleBridge\<close> returns
  node 2 at \<open>(3,1)\<close>, which lies on the side of the triangle from \<open>(0,0)\<close> to \<open>(6,2)\<close>.
\<close>

theorem findHoleBridge_not_strictly_inside_counterexample:
  "bindE (createFaceLoopFromXAndYArray 100 notchedOuter True True [])
     (\<lambda>r. bindE (constructHoles 100 [smallHole] [] (snd r)) (\<lambda>q. Inr (fst r, q)))
     = Inr (Some 0, [11], notchedWithHole) \<and>
   facePath notchedWithHole 0 [0, 2, 4, 6, 8] 0 \<and>
   filter (edgeCrossed notchedWithHole 6 2) [0, 2, 4, 6, 8] = [8] \<and>
   crossX notchedWithHole 2 8 = 0 \<and> lesserEnd notchedWithHole 8 = 0 \<and>
   filter (specBridgeCandidate notchedWithHole 11 0 0) [0, 2, 4, 6, 8] = [] \<and>
   findHoleBridge 20 notchedWithHole 11 (Some 0) = Inr (Some 2)"
  by code_simp


section \<open>Properties of the component search\<close>

lemma isMaskSet_setMask:
  "isMaskSet (setMask n m g) k m' =
     (if k = n \<and> n < length g then isMaskSet g k m' \<or> m AND m' \<noteq> 0 else isMaskSet g k m')"
  by (auto simp: isMaskSet_def setMask_def nth_upd bit.conj_disj_distrib2 or_eq_0_iff)

lemma isMaskSet_clearMask:
  "isMaskSet (clearMask n m g) k m =
     (if k = n \<and> n < length g then False else isMaskSet g k m)"
  by (auto simp: isMaskSet_def clearMask_def nth_upd and.assoc)

lemma and_not_or_cancel:
  "(x AND NOT (pm OR v)) AND v = (0 :: int)" "(x AND NOT (pm OR v)) AND pm = (0 :: int)"
  "(x AND NOT pm AND NOT v) AND v = (0 :: int)" "(x AND NOT pm AND NOT v) AND pm = (0 :: int)"
  by (auto simp: bit_eq_iff bit_simps)

lemma or_and_self: "(pm OR v) AND v = (v :: int)" "(pm OR v) AND pm = pm"
  by (auto simp: bit_eq_iff bit_simps)

lemma isMaskSet_graphClearMask:
  assumes "n < length g"
  shows "\<not> isMaskSet (graphClearMask (pm OR VISITED) g) n VISITED"
    and "\<not> isMaskSet (graphClearMask (pm OR VISITED) g) n pm"
  using assms by (simp_all add: isMaskSet_def graphClearMask_def and_not_or_cancel)

lemma sameLinks_refl [simp]: "sameLinks g g"
  by (simp add: sameLinks_def)

lemma sameLinks_trans: "sameLinks g g' \<Longrightarrow> sameLinks g' g'' \<Longrightarrow> sameLinks g g''"
  by (simp add: sameLinks_def)

lemma sameLinks_sym: "sameLinks g g' \<Longrightarrow> sameLinks g' g"
  by (simp add: sameLinks_def)

lemma sameLinks_setMask [simp]: "sameLinks g (setMask n m g)"
  by (simp add: sameLinks_def setMask_def nth_upd)

lemma sameLinks_clearMask [simp]: "sameLinks g (clearMask n m g)"
  by (simp add: sameLinks_def clearMask_def nth_upd)

lemma sameLinks_graphClearMask [simp]: "sameLinks g (graphClearMask m g)"
  by (simp add: sameLinks_def graphClearMask_def)

lemma wfLinks_sameLinks: "sameLinks g g' \<Longrightarrow> wfLinks g \<Longrightarrow> wfLinks g'"
  by (rule wfLinksI) (use wfLinksD [of g] in \<open>auto simp: sameLinks_def\<close>)

lemma matesInRangeD:
  "matesInRange g \<Longrightarrow> n < length g \<Longrightarrow> edgeMate (g ! n) = Some m \<Longrightarrow> m < length g"
  by (auto simp: matesInRange_def list_all_iff split: option.splits)

lemma matesInRange_sameLinks: "sameLinks g g' \<Longrightarrow> matesInRange g \<Longrightarrow> matesInRange g'"
  by (auto simp: matesInRange_def list_all_iff sameLinks_def split: option.splits)

lemma facePath_sameLinks:
  "sameLinks g g' \<Longrightarrow> wfLinks g \<Longrightarrow> p < length g \<Longrightarrow>
   facePath g' p ns q = facePath g p ns q"
proof (induction ns arbitrary: p)
  case Nil
  then show ?case by simp
next
  case (Cons n ns)
  show ?case
  proof (cases "p = n")
    case True
    from Cons.prems True have s: "fsucc g' n = fsucc g n" by (simp add: sameLinks_def)
    from wfLinksD [OF Cons.prems(2)] Cons.prems(3) True have "fsucc g n < length g" by simp
    from Cons.IH [OF Cons.prems(1,2) this] True s show ?thesis by simp
  next
    case False
    then show ?thesis by simp
  qed
qed

lemma facePath_in_range:
  "wfLinks g \<Longrightarrow> p < length g \<Longrightarrow> facePath g p ns q \<Longrightarrow> set ns \<subseteq> {..< length g} \<and> q < length g"
proof (induction ns arbitrary: p)
  case Nil
  then show ?case by simp
next
  case (Cons n ns)
  then have pn: "p = n" and path: "facePath g (fsucc g n) ns q" by auto
  from wfLinksD [OF Cons.prems(1)] Cons.prems(2) pn have "fsucc g n < length g" by simp
  from Cons.IH [OF Cons.prems(1) this path] pn Cons.prems(2) show ?case by simp
qed

lemma faceCycle_sameLinks:
  "sameLinks g g' \<Longrightarrow> wfLinks g \<Longrightarrow> f < length g \<Longrightarrow> faceCycle g' f ns = faceCycle g f ns"
  using facePath_sameLinks [of g g' f ns f] by (auto simp: faceCycle_def sameLinks_def)

lemma onFace_sameLinks:
  "sameLinks g g' \<Longrightarrow> wfLinks g \<Longrightarrow> f < length g \<Longrightarrow> onFace g' f n = onFace g f n"
  using facePath_sameLinks [of g g' f] by (simp add: onFace_def)

lemma funpow_range:
  "wfLinks g \<Longrightarrow> n < length g \<Longrightarrow> ((\<lambda>n. fsucc g n) ^^ k) n < length g"
  by (induction k) (auto dest: wfLinksD)

lemma facePath_funpow:
  "facePath g n (map (\<lambda>i. ((\<lambda>n. fsucc g n) ^^ i) n) [0 ..< k]) (((\<lambda>n. fsucc g n) ^^ k) n)"
proof (induction k arbitrary: n)
  case 0
  then show ?case by simp
next
  case (Suc k)
  have sw: "fsucc g (((\<lambda>n. fsucc g n) ^^ i) n) = ((\<lambda>n. fsucc g n) ^^ i) (fsucc g n)" for i
    by (rule funpow_swap1 [of "\<lambda>n. fsucc g n"])
  have "map (\<lambda>i. ((\<lambda>n. fsucc g n) ^^ i) n) [0 ..< Suc k] =
        n # map (\<lambda>i. ((\<lambda>n. fsucc g n) ^^ i) (fsucc g n)) [0 ..< k]"
    by (simp add: upt_conv_Cons map_Suc_upt [symmetric] sw del: upt_Suc)
  with Suc [of "fsucc g n"] show ?case by (simp add: sw del: upt_Suc)
qed

lemma funpow_cancel:
  "wfLinks g \<Longrightarrow> a < length g \<Longrightarrow> b < length g \<Longrightarrow>
   ((\<lambda>n. fsucc g n) ^^ i) a = ((\<lambda>n. fsucc g n) ^^ i) b \<Longrightarrow> a = b"
proof (induction i)
  case 0
  then show ?case by simp
next
  case (Suc i)
  let ?F = "\<lambda>n. fsucc g n"
  have ra: "(?F ^^ i) a < length g" and rb: "(?F ^^ i) b < length g"
    using Suc.prems by (simp_all add: funpow_range)
  from Suc.prems(4) have e: "fsucc g ((?F ^^ i) a) = fsucc g ((?F ^^ i) b)" by simp
  have "(?F ^^ i) a = fpred g (fsucc g ((?F ^^ i) a))"
    using wfLinksD [OF Suc.prems(1) ra] by simp
  also have "\<dots> = fpred g (fsucc g ((?F ^^ i) b))" by (simp only: e)
  also have "\<dots> = (?F ^^ i) b"
    using wfLinksD [OF Suc.prems(1) rb] by simp
  finally have "(?F ^^ i) a = (?F ^^ i) b" .
  from Suc.IH [OF Suc.prems(1-3) this] show ?case .
qed

lemma orbit_returns:
  assumes wf: "wfLinks g" and n: "n < length g"
  shows "\<exists>k. 0 < k \<and> k \<le> length g \<and> ((\<lambda>n. fsucc g n) ^^ k) n = n"
proof -
  let ?F = "\<lambda>n. fsucc g n"
  let ?f = "\<lambda>i. (?F ^^ i) n"
  have "?f ` {0 .. length g} \<subseteq> {..< length g}"
    using funpow_range [OF wf n] by auto
  then have "card (?f ` {0 .. length g}) \<le> card {..< length g}"
    by (intro card_mono) auto
  then have "card (?f ` {0 .. length g}) < card {0 .. length g}" by simp
  then have "\<not> inj_on ?f {0 .. length g}" by (rule pigeonhole)
  then obtain i j where ij: "i \<le> length g" "j \<le> length g" "i \<noteq> j" "?f i = ?f j"
    by (auto simp: inj_on_def)
  have main: "\<exists>k. 0 < k \<and> k \<le> length g \<and> (?F ^^ k) n = n"
    if a: "i < j" "j \<le> length g" "?f i = ?f j" for i j
  proof -
    have "(?F ^^ (i + (j - i))) n = (?F ^^ i) ((?F ^^ (j - i)) n)"
      by (simp only: funpow_add o_apply)
    with a(1) have "(?F ^^ j) n = (?F ^^ i) ((?F ^^ (j - i)) n)" by simp
    with a(3) have "(?F ^^ i) n = (?F ^^ i) ((?F ^^ (j - i)) n)" by simp
    from funpow_cancel [OF wf n funpow_range [OF wf n] this] a(1,2) show ?thesis
      by (intro exI [of _ "j - i"]) auto
  qed
  show ?thesis
  proof (cases "i < j")
    case True
    from main [OF True ij(2,4)] show ?thesis .
  next
    case False
    with ij(3) have "j < i" by simp
    from main [OF this ij(1) ij(4) [symmetric]] show ?thesis .
  qed
qed

lemma cycle_exists:
  assumes wf: "wfLinks g" and n: "n < length g"
  shows "\<exists>ns. faceCycle g n ns \<and> length ns \<le> length g"
proof -
  let ?F = "\<lambda>n. fsucc g n"
  define k where "k = (LEAST k. 0 < k \<and> k \<le> length g \<and> (?F ^^ k) n = n)"
  from orbit_returns [OF wf n] have k: "0 < k \<and> k \<le> length g \<and> (?F ^^ k) n = n"
    unfolding k_def by (rule LeastI_ex)
  have least: "\<not> (0 < j \<and> (?F ^^ j) n = n)" if "j < k" for j
  proof
    assume "0 < j \<and> (?F ^^ j) n = n"
    with that k have "0 < j \<and> j \<le> length g \<and> (?F ^^ j) n = n" by simp
    then have "k \<le> j" unfolding k_def by (rule Least_le)
    with that show False by simp
  qed
  let ?ns = "map (\<lambda>i. (?F ^^ i) n) [0 ..< k]"
  have path: "facePath g n ?ns n" using facePath_funpow [of g n k] k by simp
  have inj: "inj_on (\<lambda>i. (?F ^^ i) n) {0 ..< k}"
  proof (rule inj_onI)
    fix i j assume ij: "i \<in> {0 ..< k}" "j \<in> {0 ..< k}" "(?F ^^ i) n = (?F ^^ j) n"
    have aux: False if a: "a < b" "b < k" "(?F ^^ a) n = (?F ^^ b) n" for a b
    proof -
      have "(?F ^^ (a + (b - a))) n = (?F ^^ a) ((?F ^^ (b - a)) n)"
        by (simp only: funpow_add o_apply)
      with a(1) have "(?F ^^ b) n = (?F ^^ a) ((?F ^^ (b - a)) n)" by simp
      with a(3) have "(?F ^^ a) n = (?F ^^ a) ((?F ^^ (b - a)) n)" by simp
      from funpow_cancel [OF wf n funpow_range [OF wf n] this]
      have "(?F ^^ (b - a)) n = n" by simp
      moreover have "b - a < k" "0 < b - a" using a by arith+
      ultimately show False using least [of "b - a"] by blast
    qed
    show "i = j"
    proof (rule ccontr)
      assume ne: "i \<noteq> j"
      show False
      proof (cases "i < j")
        case True
        from aux [OF True _ ij(3)] ij(2) show False by simp
      next
        case False
        with ne have "j < i" by simp
        from aux [OF this _ ij(3) [symmetric]] ij(1) show False by simp
      qed
    qed
  qed
  have "distinct ?ns" by (simp add: distinct_map inj)
  moreover have "?ns \<noteq> []" using k by simp
  moreover have "set ?ns \<subseteq> {..< length g}" using funpow_range [OF wf n] by auto
  moreover have "length ?ns \<le> length g" using k by simp
  ultimately show ?thesis using path unfolding faceCycle_def by blast
qed

lemma faceCycle_closed:
  assumes c: "faceCycle g f ns" and x: "x \<in> set ns"
  shows "fsucc g x \<in> set ns"
proof -
  from c have path: "facePath g f ns f" and ne: "ns \<noteq> []" by (simp_all add: faceCycle_def)
  from facePath_hd [OF path ne] ne have "f \<in> set ns" by (cases ns) auto
  with facePath_succ_mem [OF path x] show ?thesis by auto
qed

lemma faceCycle_head: "faceCycle g f ns \<Longrightarrow> f \<in> set ns \<and> hd ns = f"
  using facePath_hd [of g f ns f] by (cases ns) (auto simp: faceCycle_def)

lemma facePath_stays:
  assumes cl: "\<And>x. x \<in> S \<Longrightarrow> fsucc g x \<in> S"
  shows "p \<in> S \<Longrightarrow> facePath g p ms n \<Longrightarrow> n \<in> S"
proof (induction ms arbitrary: p)
  case Nil
  then show ?case by simp
next
  case (Cons m ms)
  then have "p = m" and path: "facePath g (fsucc g m) ms n" by simp_all
  with Cons.prems(1) have "fsucc g m \<in> S" using cl by blast
  from Cons.IH [OF this path] show ?case .
qed

lemma onFace_faceCycle:
  assumes c: "faceCycle g f ns"
  shows "onFace g f n \<longleftrightarrow> n \<in> set ns"
proof
  assume "onFace g f n"
  then obtain ms where "facePath g f ms n" by (auto simp: onFace_def)
  moreover have "f \<in> set ns" using faceCycle_head [OF c] by simp
  ultimately show "n \<in> set ns"
    using facePath_stays [of "set ns" g f ms n] faceCycle_closed [OF c] by blast
next
  assume "n \<in> set ns"
  then obtain xs ys where "ns = xs @ n # ys" by (auto dest: split_list)
  with c have "facePath g f (xs @ n # ys) f" by (simp add: faceCycle_def)
  then have "facePath g f xs n" unfolding facePath_append by auto
  then show "onFace g f n" by (auto simp: onFace_def)
qed

lemma fsucc_clearMask [simp]: "faceSuccessor (clearMask i m g ! n) = faceSuccessor (g ! n)"
  by (simp add: clearMask_def nth_upd)

lemma length_clearMask [simp]: "length (clearMask i m g) = length g"
  by (simp add: clearMask_def)

lemma facePath_setMask [simp]: "facePath (setMask i m g) p ns q = facePath g p ns q"
  by (induction ns arbitrary: p) simp_all

lemma facePath_clearMask [simp]: "facePath (clearMask i m g) p ns q = facePath g p ns q"
  by (induction ns arbitrary: p) simp_all

lemma setMaskWalk_path:
  "facePath g n ns seed \<Longrightarrow> ns \<noteq> [] \<Longrightarrow> seed \<notin> set (tl ns) \<Longrightarrow> length ns \<le> fuel \<Longrightarrow>
   setMaskWalk fuel seed n m g = Inr (fold (\<lambda>n. setMask n m) ns g)"
proof (induction ns arbitrary: n fuel g)
  case Nil
  then show ?case by simp
next
  case (Cons a ns)
  then obtain k where k: "fuel = Suc k" by (cases fuel) auto
  from Cons.prems have an: "n = a" and path: "facePath g (fsucc g a) ns seed" by simp_all
  show ?case
  proof (cases ns)
    case Nil
    with path have "fsucc g a = seed" by simp
    with Nil k an show ?thesis by (simp add: Let_def)
  next
    case c: (Cons b ms)
    with path have b: "fsucc g a = b" by simp
    with c Cons.prems(3) have ne: "fsucc g a \<noteq> seed" by auto
    have "setMaskWalk k seed (fsucc g a) m (setMask a m g) =
          Inr (fold (\<lambda>n. setMask n m) ns (setMask a m g))"
      using Cons.prems c k path by (intro Cons.IH) auto
    with ne k an show ?thesis by (simp add: Let_def)
  qed
qed

lemma clearMaskWalk_path:
  "facePath g n ns seed \<Longrightarrow> ns \<noteq> [] \<Longrightarrow> seed \<notin> set (tl ns) \<Longrightarrow> length ns \<le> fuel \<Longrightarrow>
   clearMaskWalk fuel seed n m g = Inr (fold (\<lambda>n. clearMask n m) ns g)"
proof (induction ns arbitrary: n fuel g)
  case Nil
  then show ?case by simp
next
  case (Cons a ns)
  then obtain k where k: "fuel = Suc k" by (cases fuel) auto
  from Cons.prems have an: "n = a" and path: "facePath g (fsucc g a) ns seed" by simp_all
  show ?case
  proof (cases ns)
    case Nil
    with path have "fsucc g a = seed" by simp
    with Nil k an show ?thesis by (simp add: Let_def)
  next
    case c: (Cons b ms)
    with path have b: "fsucc g a = b" by simp
    with c Cons.prems(3) have ne: "fsucc g a \<noteq> seed" by auto
    have "clearMaskWalk k seed (fsucc g a) m (clearMask a m g) =
          Inr (fold (\<lambda>n. clearMask n m) ns (clearMask a m g))"
      using Cons.prems c k path by (intro Cons.IH) auto
    with ne k an show ?thesis by (simp add: Let_def)
  qed
qed

lemma pushAndMaskWalk_path:
  "facePath g n ns seed \<Longrightarrow> ns \<noteq> [] \<Longrightarrow> seed \<notin> set (tl ns) \<Longrightarrow> length ns \<le> fuel \<Longrightarrow>
   pushAndMaskWalk fuel seed n m g st = Inr (fold (\<lambda>n. setMask n m) ns g, rev ns @ st)"
proof (induction ns arbitrary: n fuel g st)
  case Nil
  then show ?case by simp
next
  case (Cons a ns)
  then obtain k where k: "fuel = Suc k" by (cases fuel) auto
  from Cons.prems have an: "n = a" and path: "facePath g (fsucc g a) ns seed" by simp_all
  show ?case
  proof (cases ns)
    case Nil
    with path have "fsucc g a = seed" by simp
    with Nil k an show ?thesis by (simp add: Let_def)
  next
    case c: (Cons b ms)
    with path have b: "fsucc g a = b" by simp
    with c Cons.prems(3) have ne: "fsucc g a \<noteq> seed" by auto
    have "pushAndMaskWalk k seed (fsucc g a) m (setMask a m g) (a # st) =
          Inr (fold (\<lambda>n. setMask n m) ns (setMask a m g), rev ns @ a # st)"
      using Cons.prems c k path by (intro Cons.IH) auto
    with ne k an show ?thesis by (simp add: Let_def)
  qed
qed

lemma faceAreaWalk_path:
  "facePath g n ns seed \<Longrightarrow> ns \<noteq> [] \<Longrightarrow> seed \<notin> set (tl ns) \<Longrightarrow> length ns \<le> fuel \<Longrightarrow>
   \<exists>a. faceAreaWalk fuel g seed n acc = Inr a"
proof (induction ns arbitrary: n fuel acc)
  case Nil
  then show ?case by simp
next
  case (Cons a ns)
  then obtain k where k: "fuel = Suc k" by (cases fuel) auto
  from Cons.prems have an: "n = a" and path: "facePath g (fsucc g a) ns seed" by simp_all
  let ?acc = "acc + (xc (g ! a) - xc (g ! fsucc g a)) * (yc (g ! a) + yc (g ! fsucc g a))"
  show ?case
  proof (cases ns)
    case Nil
    with path have "fsucc g a = seed" by simp
    then have "faceAreaWalk (Suc k) g seed a acc = Inr (1 / 2 * ?acc)"
      by (simp only: faceAreaWalk.simps Let_def if_True refl)
    with k an show ?thesis by blast
  next
    case c: (Cons b ms)
    with path have b: "fsucc g a = b" by simp
    with c Cons.prems(3) have ne: "fsucc g a \<noteq> seed" by auto
    have "\<exists>r. faceAreaWalk k g seed (fsucc g a) ?acc = Inr r"
      using Cons.prems c k path by (intro Cons.IH) auto
    moreover from ne have "faceAreaWalk (Suc k) g seed a acc = faceAreaWalk k g seed (fsucc g a) ?acc"
      by (simp only: faceAreaWalk.simps Let_def if_False)
    ultimately show ?thesis using k an by simp
  qed
qed

lemma faceAreaWalk_sameLinks:
  "sameLinks g h \<Longrightarrow> wfLinks g \<Longrightarrow> n < length g \<Longrightarrow>
   faceAreaWalk fuel h seed n acc = faceAreaWalk fuel g seed n acc"
proof (induction fuel arbitrary: n acc)
  case 0
  then show ?case by simp
next
  case (Suc k)
  define s where "s = fsucc g n"
  from wfLinksD [OF Suc.prems(2,3)] have s: "s < length g" by (simp add: s_def)
  from Suc.prems(1,3) s have e: "fsucc h n = s" "xc (h ! n) = xc (g ! n)"
    "yc (h ! n) = yc (g ! n)" "xc (h ! s) = xc (g ! s)" "yc (h ! s) = yc (g ! s)"
    by (simp_all add: sameLinks_def s_def)
  have "faceAreaWalk (Suc k) h seed n acc =
        (let acc1 = acc + (xc (g ! n) - xc (g ! s)) * (yc (g ! n) + yc (g ! s))
         in if s = seed then Inr (1 / 2 * acc1) else faceAreaWalk k h seed s acc1)"
    by (simp only: faceAreaWalk.simps Let_def e)
  also have "\<dots> =
        (let acc1 = acc + (xc (g ! n) - xc (g ! s)) * (yc (g ! n) + yc (g ! s))
         in if s = seed then Inr (1 / 2 * acc1) else faceAreaWalk k g seed s acc1)"
    by (simp only: Suc.IH [OF Suc.prems(1,2) s])
  also have "\<dots> = faceAreaWalk (Suc k) g seed n acc"
    by (simp only: faceAreaWalk.simps Let_def s_def)
  finally show ?case .
qed

lemma signedFaceArea_sameLinks:
  "sameLinks g h \<Longrightarrow> wfLinks g \<Longrightarrow> n < length g \<Longrightarrow>
   signedFaceArea fuel h n = signedFaceArea fuel g n"
  by (simp add: signedFaceArea_def faceAreaWalk_sameLinks)

lemma faceCycle_walk:
  assumes "faceCycle g f ns"
  shows "facePath g f ns f" "ns \<noteq> []" "f \<notin> set (tl ns)"
proof -
  from assms show "facePath g f ns f" "ns \<noteq> []" by (simp_all add: faceCycle_def)
  from assms faceCycle_head [OF assms] show "f \<notin> set (tl ns)"
    by (cases ns) (auto simp: faceCycle_def)
qed

lemma length_fold_setMask [simp]: "length (fold (\<lambda>n. setMask n m) ns g) = length g"
  by (induction ns arbitrary: g) simp_all

lemma length_fold_clearMask [simp]: "length (fold (\<lambda>n. clearMask n m) ns g) = length g"
  by (induction ns arbitrary: g) simp_all

lemma sameLinks_fold_setMask [simp]: "sameLinks g (fold (\<lambda>n. setMask n m) ns g)"
proof (induction ns arbitrary: g)
  case Nil
  then show ?case by simp
next
  case (Cons a ns)
  from sameLinks_trans [OF sameLinks_setMask Cons [of "setMask a m g"]] show ?case by simp
qed

lemma sameLinks_fold_clearMask [simp]: "sameLinks g (fold (\<lambda>n. clearMask n m) ns g)"
proof (induction ns arbitrary: g)
  case Nil
  then show ?case by simp
next
  case (Cons a ns)
  from sameLinks_trans [OF sameLinks_clearMask Cons [of "clearMask a m g"]] show ?case by simp
qed

lemma isMaskSet_fold_setMask:
  "set ns \<subseteq> {..< length g} \<Longrightarrow>
   isMaskSet (fold (\<lambda>n. setMask n m) ns g) k m' =
     (if k \<in> set ns then isMaskSet g k m' \<or> m AND m' \<noteq> 0 else isMaskSet g k m')"
proof (induction ns arbitrary: g)
  case Nil
  then show ?case by simp
next
  case (Cons a ns)
  from Cons.prems have "set ns \<subseteq> {..< length (setMask a m g)}" by simp
  from Cons.IH [OF this] Cons.prems show ?case
    by (auto simp: isMaskSet_setMask)
qed

lemma isMaskSet_fold_clearMask:
  "set ns \<subseteq> {..< length g} \<Longrightarrow>
   isMaskSet (fold (\<lambda>n. clearMask n m) ns g) k m =
     (if k \<in> set ns then False else isMaskSet g k m)"
proof (induction ns arbitrary: g)
  case Nil
  then show ?case by simp
next
  case (Cons a ns)
  from Cons.prems have "set ns \<subseteq> {..< length (clearMask a m g)}" by simp
  from Cons.IH [OF this] Cons.prems show ?case
    by (auto simp: isMaskSet_clearMask)
qed

lemma nth_fold_setMask_other:
  "k \<notin> set ns \<Longrightarrow> fold (\<lambda>n. setMask n m) ns g ! k = g ! k"
  by (induction ns arbitrary: g) (simp_all add: setMask_def)

lemma finite_unvisited [simp]: "finite (unvisited h)"
  by (simp add: unvisited_def)

lemma card_unvisited_le: "card (unvisited h) \<le> length h"
proof -
  have "unvisited h \<subseteq> {..< length h}" by (auto simp: unvisited_def)
  then have "card (unvisited h) \<le> card {..< length h}" by (intro card_mono) auto
  then show ?thesis by simp
qed

lemma VISITED_nonzero: "VISITED AND VISITED \<noteq> 0" "(pm OR VISITED) AND VISITED \<noteq> 0"
  by (simp_all add: or_and_self VISITED_def)

lemma mask_const_on_path:
  assumes inv: "floodInv g0 pm h" and wf: "wfLinks g0"
  shows "p < length g0 \<Longrightarrow> facePath g0 p ns q \<Longrightarrow>
         isMaskSet h q VISITED = isMaskSet h p VISITED \<and> isMaskSet h q pm = isMaskSet h p pm"
proof (induction ns arbitrary: p)
  case Nil
  then show ?case by simp
next
  case (Cons a ns)
  then have pa: "p = a" and path: "facePath g0 (fsucc g0 a) ns q" by simp_all
  from wfLinksD [OF wf] Cons.prems(1) pa have s: "fsucc g0 a < length g0" by simp
  from inv Cons.prems(1) pa
  have "isMaskSet h (fsucc g0 a) VISITED = isMaskSet h a VISITED"
       "isMaskSet h (fsucc g0 a) pm = isMaskSet h a pm"
    by (simp_all add: floodInv_def)
  with Cons.IH [OF s path] pa show ?case by simp
qed

lemma mask_const_on_face:
  assumes inv: "floodInv g0 pm h" and wf: "wfLinks g0" and f: "f < length g0"
    and o: "onFace g0 f n"
  shows "isMaskSet h n VISITED = isMaskSet h f VISITED" "isMaskSet h n pm = isMaskSet h f pm"
  using o mask_const_on_path [OF inv wf f] by (auto simp: onFace_def)

lemma faceCycle_pred_closed:
  assumes c: "faceCycle g f ns" and wf: "wfLinks g" and x: "x \<in> set ns"
  shows "fpred g x \<in> set ns"
proof -
  let ?F = "\<lambda>n. fsucc g n"
  from c have r: "set ns \<subseteq> {..< length g}" by (simp add: faceCycle_def)
  have sub: "?F ` set ns \<subseteq> set ns" using faceCycle_closed [OF c] by auto
  have inj: "inj_on ?F (set ns)"
  proof (rule inj_onI)
    fix a b assume a: "a \<in> set ns" and b: "b \<in> set ns" and e: "fsucc g a = fsucc g b"
    from a b r have "a < length g" "b < length g" by auto
    from wfLinksD [OF wf this(1)] wfLinksD [OF wf this(2)]
    have "a = fpred g (fsucc g a)" "b = fpred g (fsucc g b)" by simp_all
    with e show "a = b" by metis
  qed
  have "?F ` set ns = set ns" by (rule endo_inj_surj [OF _ sub inj]) simp
  with x obtain y where y: "y \<in> set ns" "x = fsucc g y" by auto
  with r have "y < length g" by auto
  from wfLinksD [OF wf this] y show ?thesis by simp
qed

lemma faceCycle_succ_iff:
  assumes c: "faceCycle g f ns" and wf: "wfLinks g" and n: "n < length g"
  shows "fsucc g n \<in> set ns \<longleftrightarrow> n \<in> set ns"
proof
  assume "fsucc g n \<in> set ns"
  from faceCycle_pred_closed [OF c wf this] wfLinksD [OF wf n] show "n \<in> set ns" by simp
next
  assume "n \<in> set ns"
  then show "fsucc g n \<in> set ns" by (rule faceCycle_closed [OF c])
qed

lemma push_face_inv:
  assumes wf: "wfLinks g0" and inv: "floodInv g0 pm h" and m: "mate < length g0"
    and un: "\<not> isMaskSet h mate VISITED" and c: "faceCycle g0 mate ns"
    and M: "M = (pm OR VISITED) \<or> M = VISITED"
  shows "floodInv g0 pm (fold (\<lambda>n. setMask n M) ns h)"
    and "\<And>k. isMaskSet (fold (\<lambda>n. setMask n M) ns h) k VISITED =
              (isMaskSet h k VISITED \<or> k \<in> set ns)"
    and "set ns \<subseteq> unvisited h"
    and "unvisited (fold (\<lambda>n. setMask n M) ns h) = unvisited h - set ns"
proof -
  let ?h = "fold (\<lambda>n. setMask n M) ns h"
  from inv have sl: "sameLinks g0 h" and len: "length h = length g0" by (simp_all add: floodInv_def sameLinks_def)
  from c have r: "set ns \<subseteq> {..< length h}" by (simp add: faceCycle_def len)
  have MV: "M AND VISITED \<noteq> 0" using M VISITED_nonzero by auto
  have onf: "k \<in> set ns \<Longrightarrow> onFace g0 mate k" for k
    using onFace_faceCycle [OF c] by simp
  have old: "\<not> isMaskSet h k VISITED \<and> \<not> isMaskSet h k pm" if "k \<in> set ns" for k
  proof -
    from that r len have kl: "k < length g0" by auto
    from mask_const_on_face [OF inv wf m onf [OF that]] un
    have "\<not> isMaskSet h k VISITED" by simp
    with inv kl show ?thesis by (simp add: floodInv_def)
  qed
  show v: "isMaskSet ?h k VISITED = (isMaskSet h k VISITED \<or> k \<in> set ns)" for k
    using MV by (simp add: isMaskSet_fold_setMask [OF r])
  have p: "isMaskSet ?h k pm = (if k \<in> set ns then M AND pm \<noteq> 0 else isMaskSet h k pm)" for k
    using old [of k] by (simp add: isMaskSet_fold_setMask [OF r])
  show "set ns \<subseteq> unvisited h"
    using old r by (auto simp: unvisited_def)
  show "unvisited ?h = unvisited h - set ns"
    by (auto simp: unvisited_def v)
  show "floodInv g0 pm ?h"
    unfolding floodInv_def
  proof (intro conjI allI impI)
    show "sameLinks g0 ?h" by (rule sameLinks_trans [OF sl sameLinks_fold_setMask])
  next
    fix n assume n: "n < length g0"
    from inv n have a: "isMaskSet h (fsucc g0 n) VISITED = isMaskSet h n VISITED"
      by (simp add: floodInv_def)
    with faceCycle_succ_iff [OF c wf n] show "isMaskSet ?h (fsucc g0 n) VISITED = isMaskSet ?h n VISITED"
      by (simp add: v)
  next
    fix n assume n: "n < length g0"
    from inv n have a: "isMaskSet h (fsucc g0 n) pm = isMaskSet h n pm"
      by (simp add: floodInv_def)
    with faceCycle_succ_iff [OF c wf n] show "isMaskSet ?h (fsucc g0 n) pm = isMaskSet ?h n pm"
      by (simp add: p)
  next
    fix n assume n: "n < length g0" and u: "\<not> isMaskSet ?h n VISITED"
    from u have "n \<notin> set ns" "\<not> isMaskSet h n VISITED" by (simp_all add: v)
    with inv n show "\<not> isMaskSet ?h n pm" by (simp add: p floodInv_def)
  qed
qed

lemma floodOut_refl: "floodInv g0 pm h \<Longrightarrow> floodOut g0 pm h h []"
  by (simp add: floodOut_def)

lemma floodOut_trans:
  assumes a: "floodOut g0 pm h h1 fs" and b: "floodOut g0 pm h1 h' new"
  shows "floodOut g0 pm h h' (fs @ new)"
proof -
  from a have mono1: "\<And>k. isMaskSet h k VISITED \<Longrightarrow> isMaskSet h1 k VISITED"
    and v1: "\<And>b. b \<in> set fs \<Longrightarrow> b < length g0 \<and> isMaskSet h1 b VISITED"
    and sw1: "sorted_wrt (\<lambda>a b. \<not> onFace g0 a b) fs"
    and sep1: "\<And>a b. a < length g0 \<Longrightarrow> isMaskSet h a VISITED \<Longrightarrow> b \<in> set fs \<Longrightarrow>
                \<not> onFace g0 a b"
    unfolding floodOut_def by blast+
  from b have i': "floodInv g0 pm h'"
    and mono: "\<And>k. isMaskSet h1 k VISITED \<Longrightarrow> isMaskSet h' k VISITED"
    and v': "\<And>b. b \<in> set new \<Longrightarrow> b < length g0 \<and> isMaskSet h' b VISITED"
    and sw': "sorted_wrt (\<lambda>a b. \<not> onFace g0 a b) new"
    and sep': "\<And>a b. a < length g0 \<Longrightarrow> isMaskSet h1 a VISITED \<Longrightarrow> b \<in> set new \<Longrightarrow>
                \<not> onFace g0 a b"
    unfolding floodOut_def by blast+
  have a2: "\<forall>k. isMaskSet h k VISITED \<longrightarrow> isMaskSet h' k VISITED"
    using mono mono1 by blast
  have a4: "\<forall>b \<in> set (fs @ new). b < length g0 \<and> isMaskSet h' b VISITED"
  proof
    fix b assume "b \<in> set (fs @ new)"
    then consider "b \<in> set fs" | "b \<in> set new" by auto
    then show "b < length g0 \<and> isMaskSet h' b VISITED"
    proof cases
      case 1
      from v1 [OF 1] mono show ?thesis by blast
    next
      case 2
      from v' [OF 2] show ?thesis .
    qed
  qed
  have cross: "\<forall>x \<in> set fs. \<forall>y \<in> set new. \<not> onFace g0 x y"
  proof (intro ballI)
    fix x y assume x: "x \<in> set fs" and y: "y \<in> set new"
    from v1 [OF x] have "x < length g0" "isMaskSet h1 x VISITED" by simp_all
    from sep' [OF this y] show "\<not> onFace g0 x y" .
  qed
  have a5: "sorted_wrt (\<lambda>a b. \<not> onFace g0 a b) (fs @ new)"
    unfolding sorted_wrt_append using sw1 sw' cross by blast
  have a6: "\<forall>a < length g0. isMaskSet h a VISITED \<longrightarrow>
              (\<forall>b \<in> set (fs @ new). \<not> onFace g0 a b)"
  proof (intro allI impI ballI)
    fix a b assume a: "a < length g0" "isMaskSet h a VISITED" and b: "b \<in> set (fs @ new)"
    then consider "b \<in> set fs" | "b \<in> set new" by auto
    then show "\<not> onFace g0 a b"
    proof cases
      case 1
      from sep1 [OF a 1] show ?thesis .
    next
      case 2
      from sep' [OF a(1) mono1 [OF a(2)] 2] show ?thesis .
    qed
  qed
  from i' a2 a4 a5 a6 show ?thesis unfolding floodOut_def by blast
qed

lemma floodOut_push:
  assumes wf: "wfLinks g0" and inv: "floodInv g0 pm h" and m: "mate < length g0"
    and un: "\<not> isMaskSet h mate VISITED" and c: "faceCycle g0 mate ns"
    and M: "M = (pm OR VISITED) \<or> M = VISITED"
  shows "floodOut g0 pm h (fold (\<lambda>n. setMask n M) ns h) [mate]"
proof -
  note pf = push_face_inv [OF wf inv m un c M]
  have mh1: "isMaskSet (fold (\<lambda>n. setMask n M) ns h) mate VISITED"
    using faceCycle_head [OF c] by (simp add: pf(2))
  have sep: "\<not> onFace g0 a mate" if a: "a < length g0" "isMaskSet h a VISITED" for a
  proof
    assume "onFace g0 a mate"
    from mask_const_on_face(1) [OF inv wf a(1) this] a(2) un show False by simp
  qed
  show ?thesis
    unfolding floodOut_def using pf(1) mh1 m sep by (simp add: pf(2))
qed

lemma pushFace_run:
  assumes wf: "wfLinks g0" and sl: "sameLinks g0 h" and m: "mate < length g0"
    and c: "faceCycle g0 mate ns" and k: "length ns \<le> k"
  shows "pushAndMaskAllNodesInFace k mate M h st faces =
           Inr (fold (\<lambda>n. setMask n M) ns h, rev ns @ st, faces @ [mate])"
proof -
  from faceCycle_walk [OF c] facePath_sameLinks [OF sl wf m, of ns mate]
  have "facePath h mate ns mate" "ns \<noteq> []" "mate \<notin> set (tl ns)" by simp_all
  from pushAndMaskWalk_path [OF this k, of M st] show ?thesis
    by (simp add: pushAndMaskAllNodesInFace_def)
qed

lemma push_measure:
  assumes wf: "wfLinks g0" and inv: "floodInv g0 pm h" and m: "mate < length g0"
    and un: "\<not> isMaskSet h mate VISITED" and c: "faceCycle g0 mate ns"
    and M: "M = (pm OR VISITED) \<or> M = VISITED"
  shows "length ns \<le> card (unvisited h)"
    and "card (unvisited (fold (\<lambda>n. setMask n M) ns h)) + length ns = card (unvisited h)"
proof -
  note pf = push_face_inv [OF wf inv m un c M]
  from c have dn: "distinct ns" by (simp add: faceCycle_def)
  from pf(3) have "card (set ns) \<le> card (unvisited h)" by (intro card_mono) auto
  with dn show ln: "length ns \<le> card (unvisited h)" by (simp add: distinct_card)
  have "card (unvisited (fold (\<lambda>n. setMask n M) ns h)) = card (unvisited h) - length ns"
    using pf(3,4) dn by (simp add: card_Diff_subset distinct_card)
  with ln show "card (unvisited (fold (\<lambda>n. setMask n M) ns h)) + length ns = card (unvisited h)"
    by simp
qed

lemma floodLoop_inv:
  assumes wf: "wfLinks g0" and mr: "matesInRange g0"
  shows "floodInv g0 pm h \<Longrightarrow> set st \<subseteq> {n. n < length g0 \<and> isMaskSet h n VISITED} \<Longrightarrow>
     card (unvisited h) + length st < fuel \<Longrightarrow>
     \<exists>h' new. floodLoop fuel VISITED pm h st faces = Inr (h', faces @ new) \<and>
               floodOut g0 pm h h' new"
proof (induction fuel arbitrary: h st faces)
  case 0
  then show ?case by simp
next
  case (Suc k)
  note inv = Suc.prems(1)
  from inv have sl: "sameLinks g0 h" and len: "length h = length g0"
    by (simp_all add: floodInv_def sameLinks_def)
  show ?case
  proof (cases st)
    case Nil
    then have "floodLoop (Suc k) VISITED pm h st faces = Inr (h, faces @ [])" by simp
    with floodOut_refl [OF inv] show ?thesis by blast
  next
    case (Cons p st1)
    with Suc.prems(2) have p: "p < length g0" and pv: "isMaskSet h p VISITED"
      and st1: "set st1 \<subseteq> {n. n < length g0 \<and> isMaskSet h n VISITED}"
      by auto
    from Suc.prems(3) Cons have fu: "card (unvisited h) + length st1 < k" by simp
    from sl p have em: "edgeMate (h ! p) = edgeMate (g0 ! p)" by (simp add: sameLinks_def)
    have skip: ?thesis if "floodLoop (Suc k) VISITED pm h st faces = floodLoop k VISITED pm h st1 faces"
    proof -
      from Suc.IH [OF inv st1 fu, of faces] that show ?thesis by simp
    qed
    show ?thesis
    proof (cases "edgeMate (g0 ! p)")
      case None
      with Cons em show ?thesis by (intro skip) simp
    next
      case (Some mate)
      from matesInRangeD [OF mr p Some] have m: "mate < length g0" .
      show ?thesis
      proof (cases "isMaskSet h mate VISITED")
        case True
        with Cons em Some show ?thesis by (intro skip) simp
      next
        case un: False
        define M where "M = (if \<not> isMaskSet h p pm then pm OR VISITED else VISITED)"
        have M: "M = (pm OR VISITED) \<or> M = VISITED" by (simp add: M_def)
        from cycle_exists [OF wf m] obtain ns where c: "faceCycle g0 mate ns" by blast
        define h1 where "h1 = fold (\<lambda>n. setMask n M) ns h"
        note pf = push_face_inv [OF wf inv m un c M, folded h1_def]
        note pm = push_measure [OF wf inv m un c M, folded h1_def]
        note po = floodOut_push [OF wf inv m un c M, folded h1_def]
        from pm(1) fu have lk: "length ns \<le> k" by simp
        have run: "floodLoop (Suc k) VISITED pm h st faces =
                   floodLoop k VISITED pm h1 (rev ns @ st1) (faces @ [mate])"
          using Cons em Some un pushFace_run [OF wf sl m c lk, of M st1 faces]
          by (simp add: Let_def M_def h1_def)
        have st': "set (rev ns @ st1) \<subseteq> {n. n < length g0 \<and> isMaskSet h1 n VISITED}"
          using st1 c by (auto simp: pf(2) faceCycle_def)
        have fu': "card (unvisited h1) + length (rev ns @ st1) < k"
          using pm(2) fu by simp
        from Suc.IH [OF pf(1) st' fu', of "faces @ [mate]"]
        obtain h' new where r: "floodLoop k VISITED pm h1 (rev ns @ st1) (faces @ [mate]) =
              Inr (h', (faces @ [mate]) @ new)"
          and o: "floodOut g0 pm h1 h' new"
          by blast
        from run r have "floodLoop (Suc k) VISITED pm h st faces = Inr (h', faces @ ([mate] @ new))"
          by simp
        with floodOut_trans [OF po o] show ?thesis by blast
      qed
    qed
  qed
qed

lemma parityFlood_inv:
  assumes wf: "wfLinks g0" and mr: "matesInRange g0" and inv: "floodInv g0 pm h"
    and s: "seed < length g0" and un: "\<not> isMaskSet h seed VISITED" and fuel: "length g0 < fuel"
  shows "\<exists>h' fs. parityFloodFromSeed fuel h seed VISITED pm = Inr (h', fs) \<and> fs \<noteq> [] \<and>
                 floodOut g0 pm h h' fs"
proof -
  from inv have sl: "sameLinks g0 h" and len: "length h = length g0"
    by (simp_all add: floodInv_def sameLinks_def)
  define M where "M = pm OR VISITED"
  have M: "M = (pm OR VISITED) \<or> M = VISITED" by (simp add: M_def)
  from cycle_exists [OF wf s] obtain ns where c: "faceCycle g0 seed ns" by blast
  define h1 where "h1 = fold (\<lambda>n. setMask n M) ns h"
  note pf = push_face_inv [OF wf inv s un c M, folded h1_def]
  note pm = push_measure [OF wf inv s un c M, folded h1_def]
  note po = floodOut_push [OF wf inv s un c M, folded h1_def]
  from card_unvisited_le [of h] len fuel have cf: "card (unvisited h) < fuel" by simp
  with pm(1) have lk: "length ns \<le> fuel" by simp
  have run: "parityFloodFromSeed fuel h seed VISITED pm =
             floodLoop fuel VISITED pm h1 (rev ns @ []) ([] @ [seed])"
    using un pushFace_run [OF wf sl s c lk, of M "[]" "[]"]
    by (simp add: parityFloodFromSeed_def M_def h1_def)
  have st': "set (rev ns @ []) \<subseteq> {n. n < length g0 \<and> isMaskSet h1 n VISITED}"
    using c by (auto simp: pf(2) faceCycle_def)
  have fu': "card (unvisited h1) + length (rev ns @ []) < fuel"
    using pm(2) cf by simp
  from floodLoop_inv [OF wf mr pf(1) st' fu', of "[] @ [seed]"]
  obtain h' new where r: "floodLoop fuel VISITED pm h1 (rev ns @ []) ([] @ [seed]) =
        Inr (h', ([] @ [seed]) @ new)"
    and o: "floodOut g0 pm h1 h' new"
    by blast
  from run r have "parityFloodFromSeed fuel h seed VISITED pm = Inr (h', [seed] @ new)" by simp
  moreover have "[seed] @ new \<noteq> []" by simp
  ultimately show ?thesis using floodOut_trans [OF po o] by blast
qed

lemma collectLoop_inv:
  assumes wf: "wfLinks g0" and mr: "matesInRange g0" and fuel: "length g0 < fuel"
  shows "floodInv g0 pm h \<Longrightarrow> set ixs \<subseteq> {..< length g0} \<Longrightarrow>
     \<exists>h' newc. collectLoop fuel pm ixs h comps = Inr (h', comps @ newc) \<and>
       floodOut g0 pm h h' (concat newc) \<and> [] \<notin> set newc"
proof (induction ixs arbitrary: h comps)
  case Nil
  then have "collectLoop fuel pm [] h comps = Inr (h, comps @ [])" by simp
  moreover have "floodOut g0 pm h h (concat [])" using floodOut_refl [OF Nil(1)] by simp
  ultimately show ?case by (intro exI [of _ h] exI [of _ "[]"]) simp
next
  case (Cons i rest)
  from Cons.prems(2) have i: "i < length g0" and rest: "set rest \<subseteq> {..< length g0}" by auto
  show ?case
  proof (cases "isMaskSet h i VISITED")
    case True
    from Cons.IH [OF Cons.prems(1) rest, of comps] True show ?thesis by simp
  next
    case False
    from parityFlood_inv [OF wf mr Cons.prems(1) i False fuel]
    obtain h1 fs where f1: "parityFloodFromSeed fuel h i VISITED pm = Inr (h1, fs)"
      and ne: "fs \<noteq> []" and o1: "floodOut g0 pm h h1 fs"
      by blast
    from o1 have i1: "floodInv g0 pm h1" by (simp add: floodOut_def)
    from Cons.IH [OF i1 rest, of "comps @ [fs]"]
    obtain h' newc where r: "collectLoop fuel pm rest h1 (comps @ [fs]) =
          Inr (h', (comps @ [fs]) @ newc)"
      and o': "floodOut g0 pm h1 h' (concat newc)" and ne': "[] \<notin> set newc"
      by blast
    have a1: "collectLoop fuel pm (i # rest) h comps = Inr (h', comps @ (fs # newc))"
      using False f1 r by simp
    have a2: "floodOut g0 pm h h' (concat (fs # newc))"
      using floodOut_trans [OF o1 o'] by simp
    have a3: "[] \<notin> set (fs # newc)" using ne ne' by auto
    from a1 a2 a3 show ?thesis by blast
  qed
qed

lemma takeWhile_either:
  "e \<in> set xs \<Longrightarrow> e' \<in> set xs \<Longrightarrow> e \<noteq> e' \<Longrightarrow>
   e' \<in> set (takeWhile (\<lambda>f. f \<noteq> e) xs) \<or> e \<in> set (takeWhile (\<lambda>f. f \<noteq> e') xs)"
  by (induction xs) auto

lemma leastNeg_unique:
  assumes a: "leastNeg A fs e" and b: "leastNeg A fs e'"
  shows "e = e'"
proof (rule ccontr)
  assume ne: "e \<noteq> e'"
  from a b have m: "e \<in> set fs" "e' \<in> set fs" by (simp_all add: leastNeg_def)
  from a m have 1: "A e \<le> A e'" by (simp add: leastNeg_def)
  from b m have 2: "A e' \<le> A e" by (simp add: leastNeg_def)
  from takeWhile_either [OF m ne] show False
  proof
    assume "e' \<in> set (takeWhile (\<lambda>f. f \<noteq> e) fs)"
    with a have "A e < A e'" by (simp add: leastNeg_def)
    with 2 show False by simp
  next
    assume "e \<in> set (takeWhile (\<lambda>f. f \<noteq> e') fs)"
    with b have "A e' < A e" by (simp add: leastNeg_def)
    with 1 show False by simp
  qed
qed

lemma leastNeg_snoc_new:
  assumes neg: "A n < 0"
    and old: "\<And>f. f \<in> set seen \<Longrightarrow> A n < A f"
  shows "leastNeg A (seen @ [n]) n"
  unfolding leastNeg_def
proof (intro conjI ballI)
  show "n \<in> set (seen @ [n])" by simp
  show "A n < 0" by (rule neg)
next
  fix f assume "f \<in> set (seen @ [n])"
  then consider "f \<in> set seen" | "f = n" by auto
  then show "A n \<le> A f"
  proof cases
    case 1
    from old [OF 1] show ?thesis by simp
  next
    case 2
    then show ?thesis by simp
  qed
next
  fix f assume a: "f \<in> set (takeWhile (\<lambda>f. f \<noteq> n) (seen @ [n]))"
  then have "f \<in> set (seen @ [n])" by (rule set_takeWhileD [THEN conjunct1])
  moreover from a have "f \<noteq> n" by (rule set_takeWhileD [THEN conjunct2])
  ultimately have "f \<in> set seen" by simp
  then show "A n < A f" by (rule old)
qed

lemma leastNeg_snoc_keep:
  assumes l: "leastNeg A seen best" and le: "A best \<le> A n"
  shows "leastNeg A (seen @ [n]) best"
proof -
  from l have m: "best \<in> set seen" by (simp add: leastNeg_def)
  then have tw: "takeWhile (\<lambda>f. f \<noteq> best) (seen @ [n]) = takeWhile (\<lambda>f. f \<noteq> best) seen"
    by (intro takeWhile_append1 [of best]) auto
  from l le m show ?thesis unfolding leastNeg_def tw by auto
qed

lemma minAreaScan_spec:
  "\<forall>f \<in> set ns. signedFaceArea fuel h f = Inr (A f) \<Longrightarrow>
   (if \<exists>f \<in> set seen. A f < 0 then leastNeg A seen best \<and> low = Some (A best) else low = None) \<Longrightarrow>
   \<exists>r. minAreaScan fuel h ns best low = Inr r \<and>
       (if \<exists>f \<in> set (seen @ ns). A f < 0 then leastNeg A (seen @ ns) r else r = best)"
proof (induction ns arbitrary: seen best low)
  case Nil
  then show ?case by (auto split: if_splits)
next
  case (Cons n ns)
  from Cons.prems(1) have an: "signedFaceArea fuel h n = Inr (A n)"
    and rest: "\<forall>f \<in> set ns. signedFaceArea fuel h f = Inr (A f)"
    by simp_all
  let ?take = "A n < 0 \<and> (case low of None \<Rightarrow> True | Some l \<Rightarrow> A n < l)"
  show ?case
  proof (cases ?take)
    case True
    have old: "A n < A f" if f: "f \<in> set seen" for f
    proof (cases "\<exists>f \<in> set seen. A f < 0")
      case neg: True
      with Cons.prems(2) have l: "leastNeg A seen best" and lo: "low = Some (A best)" by simp_all
      from l f have "A best \<le> A f" by (simp add: leastNeg_def)
      with True lo show ?thesis by simp
    next
      case False
      with f have "0 \<le> A f" by auto
      with True show ?thesis by simp
    qed
    from True have l: "leastNeg A (seen @ [n]) n" by (intro leastNeg_snoc_new old) simp_all
    have st: "if \<exists>f \<in> set (seen @ [n]). A f < 0
              then leastNeg A (seen @ [n]) n \<and> Some (A n) = Some (A n) else Some (A n) = None"
      using l True by auto
    from Cons.IH [OF rest st] obtain r where r: "minAreaScan fuel h ns n (Some (A n)) = Inr r"
      and s: "if \<exists>f \<in> set ((seen @ [n]) @ ns). A f < 0
              then leastNeg A ((seen @ [n]) @ ns) r else r = n"
      by blast
    have eq: "(seen @ [n]) @ ns = seen @ n # ns" by simp
    have ex: "\<exists>f \<in> set (seen @ n # ns). A f < 0" using True by auto
    with s have "leastNeg A (seen @ n # ns) r" unfolding eq by (simp only: if_True)
    moreover have "minAreaScan fuel h (n # ns) best low = Inr r"
      using an True r by simp
    ultimately show ?thesis using ex by (simp only: if_True) blast
  next
    case False
    have st: "if \<exists>f \<in> set (seen @ [n]). A f < 0
              then leastNeg A (seen @ [n]) best \<and> low = Some (A best) else low = None"
    proof (cases "\<exists>f \<in> set seen. A f < 0")
      case neg: True
      with Cons.prems(2) have l: "leastNeg A seen best" and lo: "low = Some (A best)" by simp_all
      from l have "A best < 0" by (simp add: leastNeg_def)
      with False lo have "A best \<le> A n" by auto
      from leastNeg_snoc_keep [OF l this] lo neg show ?thesis by auto
    next
      case none: False
      with Cons.prems(2) have lo: "low = None" by simp
      with False have "\<not> A n < 0" by simp
      with none lo show ?thesis by auto
    qed
    from Cons.IH [OF rest st] obtain r where r: "minAreaScan fuel h ns best low = Inr r"
      and s: "if \<exists>f \<in> set ((seen @ [n]) @ ns). A f < 0
              then leastNeg A ((seen @ [n]) @ ns) r else r = best"
      by blast
    have eq: "(seen @ [n]) @ ns = seen @ n # ns" by simp
    have "minAreaScan fuel h (n # ns) best low = Inr r"
      using an False r by auto
    with s [unfolded eq] show ?thesis by blast
  qed
qed

lemma findMinimumAreaFace_spec:
  assumes ne: "faces \<noteq> []" and ar: "\<forall>f \<in> set faces. signedFaceArea fuel h f = Inr (A f)"
  shows "\<exists>r. findMinimumAreaFace fuel h faces = Inr (Some r) \<and> r \<in> set faces \<and>
             (\<forall>e. leastNeg A faces e \<longrightarrow> r = e)"
proof -
  from ne obtain n ns where f: "faces = n # ns" by (cases faces) auto
  have st: "if \<exists>f \<in> set []. A f < 0 then leastNeg A [] n \<and> None = Some (A n) else None = None"
    by simp
  from minAreaScan_spec [OF ar st]
  obtain r where r: "minAreaScan fuel h faces n None = Inr r"
    and s0: "if \<exists>f \<in> set ([] @ faces). A f < 0 then leastNeg A ([] @ faces) r else r = n"
    by blast
  from s0 have s: "if \<exists>f \<in> set faces. A f < 0 then leastNeg A faces r else r = n"
    unfolding append_Nil .
  have "r \<in> set faces"
    using s f by (auto simp: leastNeg_def split: if_splits)
  moreover have "r = e" if e: "leastNeg A faces e" for e
  proof -
    from e have "\<exists>f \<in> set faces. A f < 0" by (auto simp: leastNeg_def)
    with s have "leastNeg A faces r" by simp
    from leastNeg_unique [OF this e] show ?thesis .
  qed
  moreover have "findMinimumAreaFace fuel h faces = Inr (Some r)"
    using r f by (simp add: findMinimumAreaFace_def)
  ultimately show ?thesis by blast
qed

lemma onFace_refl [simp]: "onFace g f f"
  unfolding onFace_def by (rule exI [of _ "[]"]) simp

lemma onFace_trans: "onFace g a b \<Longrightarrow> onFace g b c \<Longrightarrow> onFace g a c"
  unfolding onFace_def using facePath_append [of g a _ _ c] by blast

lemma onFace_in_range: "wfLinks g \<Longrightarrow> f < length g \<Longrightarrow> onFace g f n \<Longrightarrow> n < length g"
  unfolding onFace_def using facePath_in_range by blast

lemma onFace_sym:
  assumes wf: "wfLinks g" and a: "a < length g" and o: "onFace g a b"
  shows "onFace g b a"
proof -
  from cycle_exists [OF wf a] obtain ns where c: "faceCycle g a ns" by blast
  from o onFace_faceCycle [OF c] have "b \<in> set ns" by simp
  then obtain xs ys where ns: "ns = xs @ b # ys" by (auto dest: split_list)
  from c have "facePath g a (xs @ b # ys) a" by (simp add: faceCycle_def ns)
  then obtain r where "facePath g a xs r" "facePath g r (b # ys) a"
    unfolding facePath_append by blast
  then have "facePath g b (b # ys) a" by simp
  then show ?thesis unfolding onFace_def by blast
qed

lemma faces_disjoint:
  assumes wf: "wfLinks g" and a: "a < length g" and b: "b < length g"
    and sep: "\<not> onFace g a b" and oa: "onFace g a n" and ob: "onFace g b n"
  shows False
proof -
  from onFace_sym [OF wf b ob] have "onFace g n b" .
  with oa have "onFace g a b" by (rule onFace_trans)
  with sep show False by simp
qed

lemma toggle_face:
  assumes wf: "wfLinks g0" and sl: "sameLinks g0 h" and f: "f < length g0"
    and fuel: "length g0 < fuel" and pm: "pm \<noteq> 0"
    and U: "\<And>n. onFace g0 f n \<Longrightarrow> isMaskSet h n pm = isMaskSet h f pm"
  shows "\<exists>h1. (if isMaskSet h f pm then clearMaskAroundFace fuel f pm h
               else setMaskAroundFace fuel f pm h) = Inr h1 \<and>
              sameLinks g0 h1 \<and>
              (\<forall>n. isMaskSet h1 n pm =
                    (if onFace g0 f n then \<not> isMaskSet h n pm else isMaskSet h n pm))"
proof -
  from cycle_exists [OF wf f] obtain ns where c: "faceCycle g0 f ns"
    and ln: "length ns \<le> length g0" by blast
  from sl have len: "length h = length g0" by (simp add: sameLinks_def)
  from c have r: "set ns \<subseteq> {..< length h}" by (simp add: faceCycle_def len)
  from ln fuel have lk: "length ns \<le> fuel" by simp
  from faceCycle_walk [OF c] facePath_sameLinks [OF sl wf f, of ns f]
  have w: "facePath h f ns f" "ns \<noteq> []" "f \<notin> set (tl ns)" by simp_all
  have on: "onFace g0 f n \<longleftrightarrow> n \<in> set ns" for n by (rule onFace_faceCycle [OF c])
  have pp: "pm AND pm \<noteq> 0" using pm by simp
  show ?thesis
  proof (cases "isMaskSet h f pm")
    case True
    let ?h1 = "fold (\<lambda>n. clearMask n pm) ns h"
    have "clearMaskAroundFace fuel f pm h = Inr ?h1"
      using clearMaskWalk_path [OF w lk] by (simp add: clearMaskAroundFace_def)
    moreover have "sameLinks g0 ?h1" by (rule sameLinks_trans [OF sl sameLinks_fold_clearMask])
    moreover have "isMaskSet ?h1 n pm =
        (if onFace g0 f n then \<not> isMaskSet h n pm else isMaskSet h n pm)" for n
      using U [of n] True by (simp add: isMaskSet_fold_clearMask [OF r] on)
    ultimately show ?thesis using True by auto
  next
    case False
    let ?h1 = "fold (\<lambda>n. setMask n pm) ns h"
    have "setMaskAroundFace fuel f pm h = Inr ?h1"
      using setMaskWalk_path [OF w lk] by (simp add: setMaskAroundFace_def)
    moreover have "sameLinks g0 ?h1" by (rule sameLinks_trans [OF sl sameLinks_fold_setMask])
    moreover have "isMaskSet ?h1 n pm =
        (if onFace g0 f n then \<not> isMaskSet h n pm else isMaskSet h n pm)" for n
      using U [of n] False pp by (simp add: isMaskSet_fold_setMask [OF r] on)
    ultimately show ?thesis using False by auto
  qed
qed

lemma toggleFaces_spec:
  assumes wf: "wfLinks g0" and fuel: "length g0 < fuel" and pm: "pm \<noteq> 0"
  shows "sameLinks g0 h \<Longrightarrow> \<forall>f \<in> set fs. f < length g0 \<Longrightarrow>
     sorted_wrt (\<lambda>a b. \<not> onFace g0 a b) fs \<Longrightarrow>
     (\<forall>f \<in> set fs. \<forall>n. onFace g0 f n \<longrightarrow> isMaskSet h n pm = isMaskSet h f pm) \<Longrightarrow>
     \<exists>h'. toggleFaces fuel pm fs h = Inr h' \<and> sameLinks g0 h' \<and>
          (\<forall>n. isMaskSet h' n pm =
                (if \<exists>f \<in> set fs. onFace g0 f n then \<not> isMaskSet h n pm else isMaskSet h n pm))"
proof (induction fs arbitrary: h)
  case Nil
  then show ?case by simp
next
  case (Cons f fs)
  from Cons.prems(2) have f: "f < length g0" and fs: "\<forall>f \<in> set fs. f < length g0" by simp_all
  from Cons.prems(3) have sep: "\<And>b. b \<in> set fs \<Longrightarrow> \<not> onFace g0 f b"
    and sw: "sorted_wrt (\<lambda>a b. \<not> onFace g0 a b) fs" by simp_all
  have Uf: "\<And>n. onFace g0 f n \<Longrightarrow> isMaskSet h n pm = isMaskSet h f pm"
    using Cons.prems(4) by (meson list.set_intros(1))
  have Ufs: "\<And>b n. b \<in> set fs \<Longrightarrow> onFace g0 b n \<Longrightarrow> isMaskSet h n pm = isMaskSet h b pm"
    using Cons.prems(4) by (meson list.set_intros(2))
  from toggle_face [OF wf Cons.prems(1) f fuel pm Uf]
  obtain h1 where t: "(if isMaskSet h f pm then clearMaskAroundFace fuel f pm h
               else setMaskAroundFace fuel f pm h) = Inr h1"
    and sl1: "sameLinks g0 h1"
    and m1: "\<And>n. isMaskSet h1 n pm =
                  (if onFace g0 f n then \<not> isMaskSet h n pm else isMaskSet h n pm)"
    by blast
  have off: "\<not> onFace g0 f n" if b: "b \<in> set fs" and o: "onFace g0 b n" for b n
  proof
    assume "onFace g0 f n"
    from faces_disjoint [OF wf f _ sep [OF b] this o] fs b show False by simp
  qed
  have U1: "\<forall>b \<in> set fs. \<forall>n. onFace g0 b n \<longrightarrow> isMaskSet h1 n pm = isMaskSet h1 b pm"
  proof (intro ballI allI impI)
    fix b n assume b: "b \<in> set fs" and o: "onFace g0 b n"
    from off [OF b o] have "isMaskSet h1 n pm = isMaskSet h n pm" by (simp add: m1)
    moreover from off [OF b onFace_refl] have "isMaskSet h1 b pm = isMaskSet h b pm"
      by (simp add: m1)
    ultimately show "isMaskSet h1 n pm = isMaskSet h1 b pm" using Ufs [OF b o] by simp
  qed
  from Cons.IH [OF sl1 fs sw U1]
  obtain h' where r: "toggleFaces fuel pm fs h1 = Inr h'" and sl': "sameLinks g0 h'"
    and m': "\<And>n. isMaskSet h' n pm =
                 (if \<exists>b \<in> set fs. onFace g0 b n then \<not> isMaskSet h1 n pm else isMaskSet h1 n pm)"
    by blast
  have run: "toggleFaces fuel pm (f # fs) h = Inr h'"
    using t r by (simp del: if_split cong: if_cong)
  have "isMaskSet h' n pm =
          (if \<exists>b \<in> set (f # fs). onFace g0 b n then \<not> isMaskSet h n pm else isMaskSet h n pm)" for n
  proof (cases "\<exists>b \<in> set fs. onFace g0 b n")
    case True
    then obtain b where b: "b \<in> set fs" "onFace g0 b n" by blast
    from off [OF this] have "isMaskSet h1 n pm = isMaskSet h n pm" by (simp add: m1)
    with True show ?thesis by (simp add: m')
  next
    case False
    then show ?thesis by (simp add: m' m1)
  qed
  with run sl' show ?case by blast
qed

lemma leastNeg_cong:
  assumes "\<And>f. f \<in> set fs \<Longrightarrow> A f = B f"
  shows "leastNeg A fs e = leastNeg B fs e"
proof -
  have tw: "f \<in> set fs" if "f \<in> set (takeWhile (\<lambda>f. f \<noteq> e) fs)" for f
    using that by (rule set_takeWhileD [THEN conjunct1])
  show ?thesis
    unfolding leastNeg_def using assms tw by (metis (no_types, lifting))
qed

lemma signedFaceArea_defined:
  assumes wf: "wfLinks g0" and f: "f < length g0" and fuel: "length g0 < fuel"
  shows "\<exists>a. signedFaceArea fuel g0 f = Inr a"
proof -
  from cycle_exists [OF wf f] obtain ns where c: "faceCycle g0 f ns"
    and ln: "length ns \<le> length g0" by blast
  from ln fuel have "length ns \<le> fuel" by simp
  from faceAreaWalk_path [OF faceCycle_walk [OF c] this, of 0] show ?thesis
    by (simp add: signedFaceArea_def)
qed

lemma correctSingle_spec:
  assumes wf: "wfLinks g0" and fuel: "length g0 < fuel" and pm: "pm \<noteq> 0"
    and sl: "sameLinks g0 h" and ne: "faces \<noteq> []"
    and r: "\<forall>f \<in> set faces. f < length g0"
    and sw: "sorted_wrt (\<lambda>a b. \<not> onFace g0 a b) faces"
    and U: "\<forall>f \<in> set faces. \<forall>n. onFace g0 f n \<longrightarrow> isMaskSet h n pm = isMaskSet h f pm"
  shows "\<exists>h'. correctParityInSingleComponent fuel pm faces h = Inr h' \<and> sameLinks g0 h' \<and>
     (\<forall>n. \<not> (\<exists>f \<in> set faces. onFace g0 f n) \<longrightarrow> isMaskSet h' n pm = isMaskSet h n pm) \<and>
     (\<forall>ext. mostNegativeFace fuel g0 faces ext \<longrightarrow>
        isMaskSet h' ext pm \<and>
        (\<forall>n. (\<exists>f \<in> set faces. onFace g0 f n) \<longrightarrow>
           isMaskSet h' n pm =
             (if isMaskSet h ext pm then isMaskSet h n pm else \<not> isMaskSet h n pm)))"
proof -
  have "\<forall>f \<in> set faces. \<exists>a. signedFaceArea fuel g0 f = Inr a"
    using signedFaceArea_defined [OF wf _ fuel] r by blast
  then obtain A where A0: "\<forall>f \<in> set faces. signedFaceArea fuel g0 f = Inr (A f)"
    by (rule bchoice [THEN exE])
  have A: "\<forall>f \<in> set faces. signedFaceArea fuel h f = Inr (A f)"
    using A0 r signedFaceArea_sameLinks [OF sl wf] by simp
  from findMinimumAreaFace_spec [OF ne A]
  obtain e where fm: "findMinimumAreaFace fuel h faces = Inr (Some e)" and em: "e \<in> set faces"
    and eu: "\<And>x. leastNeg A faces x \<Longrightarrow> e = x"
    by blast
  have ext: "e = x" if "mostNegativeFace fuel g0 faces x" for x
  proof -
    from that obtain B where B: "\<forall>f \<in> set faces. signedFaceArea fuel g0 f = Inr (B f)"
      and l: "leastNeg B faces x"
      by (auto simp: mostNegativeFace_def)
    have "A f = B f" if "f \<in> set faces" for f
      using A0 B that by (metis sum.inject(2))
    from leastNeg_cong [of faces A B x, OF this] l have "leastNeg A faces x" by simp
    then show ?thesis by (rule eu)
  qed
  show ?thesis
  proof (cases "isMaskSet h e pm")
    case True
    have "correctParityInSingleComponent fuel pm faces h = Inr h"
      using fm True by (simp add: correctParityInSingleComponent_def)
    moreover have "\<forall>x. mostNegativeFace fuel g0 faces x \<longrightarrow>
        isMaskSet h x pm \<and>
        (\<forall>n. (\<exists>f \<in> set faces. onFace g0 f n) \<longrightarrow>
           isMaskSet h n pm = (if isMaskSet h x pm then isMaskSet h n pm else \<not> isMaskSet h n pm))"
      using ext True by auto
    ultimately show ?thesis using sl by blast
  next
    case False
    from toggleFaces_spec [OF wf fuel pm sl r sw U]
    obtain h' where t: "toggleFaces fuel pm faces h = Inr h'" and sl': "sameLinks g0 h'"
      and m': "\<And>n. isMaskSet h' n pm =
                 (if \<exists>f \<in> set faces. onFace g0 f n then \<not> isMaskSet h n pm else isMaskSet h n pm)"
      by blast
    have run: "correctParityInSingleComponent fuel pm faces h = Inr h'"
      using fm False t by (simp add: correctParityInSingleComponent_def)
    have out: "\<forall>n. \<not> (\<exists>f \<in> set faces. onFace g0 f n) \<longrightarrow> isMaskSet h' n pm = isMaskSet h n pm"
      by (simp add: m')
    have "\<exists>f \<in> set faces. onFace g0 f e" using em onFace_refl by blast
    then have he: "isMaskSet h' e pm" using False by (simp add: m')
    have "\<forall>x. mostNegativeFace fuel g0 faces x \<longrightarrow>
        isMaskSet h' x pm \<and>
        (\<forall>n. (\<exists>f \<in> set faces. onFace g0 f n) \<longrightarrow>
           isMaskSet h' n pm = (if isMaskSet h x pm then isMaskSet h n pm else \<not> isMaskSet h n pm))"
    proof (intro allI impI)
      fix x assume "mostNegativeFace fuel g0 faces x"
      from ext [OF this] have "x = e" by simp
      with he False show "isMaskSet h' x pm \<and>
        (\<forall>n. (\<exists>f \<in> set faces. onFace g0 f n) \<longrightarrow>
           isMaskSet h' n pm = (if isMaskSet h x pm then isMaskSet h n pm else \<not> isMaskSet h n pm))"
        by (simp add: m')
    qed
    with run sl' out show ?thesis by blast
  qed
qed

lemma mostNegativeFace_mem: "mostNegativeFace fuel g c ext \<Longrightarrow> ext \<in> set c"
  by (auto simp: mostNegativeFace_def leastNeg_def)

lemma compOK_transfer:
  assumes ok: "compOK g0 pm fuel h1 h2 c"
    and a: "\<And>n. \<exists>f \<in> set c. onFace g0 f n \<Longrightarrow> isMaskSet h1 n pm = isMaskSet h n pm"
    and b: "\<And>n. \<exists>f \<in> set c. onFace g0 f n \<Longrightarrow> isMaskSet h' n pm = isMaskSet h2 n pm"
  shows "compOK g0 pm fuel h h' c"
  unfolding compOK_def
proof (intro allI impI)
  fix ext assume m: "mostNegativeFace fuel g0 c ext"
  from mostNegativeFace_mem [OF m] have on: "\<exists>f \<in> set c. onFace g0 f ext"
    using onFace_refl by blast
  from ok m have 1: "isMaskSet h2 ext pm"
    and 2: "\<And>n. \<exists>f \<in> set c. onFace g0 f n \<Longrightarrow>
             isMaskSet h2 n pm = (if isMaskSet h1 ext pm then isMaskSet h1 n pm else \<not> isMaskSet h1 n pm)"
    unfolding compOK_def by blast+
  have "isMaskSet h' ext pm" using 1 b [OF on] by simp
  moreover have "isMaskSet h' n pm = (if isMaskSet h ext pm then isMaskSet h n pm else \<not> isMaskSet h n pm)"
    if n: "\<exists>f \<in> set c. onFace g0 f n" for n
    using 2 [OF n] a [OF n] a [OF on] b [OF n] by simp
  ultimately show "isMaskSet h' ext pm \<and>
        (\<forall>n. (\<exists>f \<in> set c. onFace g0 f n) \<longrightarrow>
           isMaskSet h' n pm =
             (if isMaskSet h ext pm then isMaskSet h n pm else \<not> isMaskSet h n pm))"
    by blast
qed

lemma correctAll_spec:
  assumes wf: "wfLinks g0" and fuel: "length g0 < fuel" and pm: "pm \<noteq> 0"
  shows "sameLinks g0 h \<Longrightarrow> [] \<notin> set cs \<Longrightarrow> \<forall>f \<in> set (concat cs). f < length g0 \<Longrightarrow>
     sorted_wrt (\<lambda>a b. \<not> onFace g0 a b) (concat cs) \<Longrightarrow>
     (\<forall>f \<in> set (concat cs). \<forall>n. onFace g0 f n \<longrightarrow> isMaskSet h n pm = isMaskSet h f pm) \<Longrightarrow>
     \<exists>h'. correctAll fuel pm cs h = Inr h' \<and> sameLinks g0 h' \<and>
          (\<forall>n. \<not> (\<exists>f \<in> set (concat cs). onFace g0 f n) \<longrightarrow> isMaskSet h' n pm = isMaskSet h n pm) \<and>
          (\<forall>c \<in> set cs. compOK g0 pm fuel h h' c)"
proof (induction cs arbitrary: h)
  case Nil
  then show ?case by simp
next
  case (Cons c cs)
  from Cons.prems(2) have ne: "c \<noteq> []" and nes: "[] \<notin> set cs" by auto
  from Cons.prems(3) have rc: "\<forall>f \<in> set c. f < length g0"
    and rcs: "\<forall>f \<in> set (concat cs). f < length g0" by simp_all
  have sa: "sorted_wrt (\<lambda>a b. \<not> onFace g0 a b) c \<and>
      sorted_wrt (\<lambda>a b. \<not> onFace g0 a b) (concat cs) \<and>
      (\<forall>a \<in> set c. \<forall>b \<in> set (concat cs). \<not> onFace g0 a b)"
    using Cons.prems(4) unfolding concat.simps sorted_wrt_append by blast
  then have swc: "sorted_wrt (\<lambda>a b. \<not> onFace g0 a b) c"
    and sws: "sorted_wrt (\<lambda>a b. \<not> onFace g0 a b) (concat cs)"
    and cross: "\<And>a b. a \<in> set c \<Longrightarrow> b \<in> set (concat cs) \<Longrightarrow> \<not> onFace g0 a b"
    by blast+
  have sub: "set c \<subseteq> set (concat (c # cs))" "set (concat cs) \<subseteq> set (concat (c # cs))"
    by auto
  have Uc: "\<forall>f \<in> set c. \<forall>n. onFace g0 f n \<longrightarrow> isMaskSet h n pm = isMaskSet h f pm"
    using Cons.prems(5) sub(1) by blast
  have Ucs: "\<And>b n. b \<in> set (concat cs) \<Longrightarrow> onFace g0 b n \<Longrightarrow> isMaskSet h n pm = isMaskSet h b pm"
    using Cons.prems(5) sub(2) by blast
  have apart: False if "\<exists>f \<in> set c. onFace g0 f n" "\<exists>b \<in> set (concat cs). onFace g0 b n" for n
  proof -
    from that obtain a b where a: "a \<in> set c" "onFace g0 a n"
      and b: "b \<in> set (concat cs)" "onFace g0 b n" by blast
    from faces_disjoint [OF wf _ _ cross [OF a(1) b(1)] a(2) b(2)] rc rcs a(1) b(1)
    show False by blast
  qed
  from correctSingle_spec [OF wf fuel pm Cons.prems(1) ne rc swc Uc]
  obtain h1 where r1: "correctParityInSingleComponent fuel pm c h = Inr h1"
    and sl1: "sameLinks g0 h1"
    and out1: "\<And>n. \<not> (\<exists>f \<in> set c. onFace g0 f n) \<Longrightarrow> isMaskSet h1 n pm = isMaskSet h n pm"
    and ok1: "compOK g0 pm fuel h h1 c"
    unfolding compOK_def by blast
  have keep1: "isMaskSet h1 n pm = isMaskSet h n pm" if "\<exists>b \<in> set (concat cs). onFace g0 b n" for n
    using out1 [of n] apart [of n] that by blast
  have U1: "\<forall>b \<in> set (concat cs). \<forall>n. onFace g0 b n \<longrightarrow> isMaskSet h1 n pm = isMaskSet h1 b pm"
  proof (intro ballI allI impI)
    fix b n assume b: "b \<in> set (concat cs)" and o: "onFace g0 b n"
    have "isMaskSet h1 n pm = isMaskSet h n pm" using keep1 b o by blast
    moreover have "isMaskSet h1 b pm = isMaskSet h b pm" using keep1 b onFace_refl by blast
    ultimately show "isMaskSet h1 n pm = isMaskSet h1 b pm" using Ucs [OF b o] by simp
  qed
  from Cons.IH [OF sl1 nes rcs sws U1]
  obtain h' where r': "correctAll fuel pm cs h1 = Inr h'" and sl': "sameLinks g0 h'"
    and out': "\<And>n. \<not> (\<exists>f \<in> set (concat cs). onFace g0 f n) \<Longrightarrow>
                 isMaskSet h' n pm = isMaskSet h1 n pm"
    and oks: "\<And>d. d \<in> set cs \<Longrightarrow> compOK g0 pm fuel h1 h' d"
    by blast
  have keep': "isMaskSet h' n pm = isMaskSet h1 n pm" if "\<exists>f \<in> set c. onFace g0 f n" for n
    using out' [of n] apart [of n] that by blast
  have run: "correctAll fuel pm (c # cs) h = Inr h'" using r1 r' by simp
  have out: "\<forall>n. \<not> (\<exists>f \<in> set (concat (c # cs)). onFace g0 f n) \<longrightarrow>
               isMaskSet h' n pm = isMaskSet h n pm"
  proof (intro allI impI)
    fix n assume "\<not> (\<exists>f \<in> set (concat (c # cs)). onFace g0 f n)"
    then have "\<not> (\<exists>f \<in> set c. onFace g0 f n)" "\<not> (\<exists>f \<in> set (concat cs). onFace g0 f n)"
      by auto
    with out1 [of n] out' [of n] show "isMaskSet h' n pm = isMaskSet h n pm" by simp
  qed
  have okc: "compOK g0 pm fuel h h' c"
    by (rule compOK_transfer [OF ok1 refl keep'])
  have okd: "compOK g0 pm fuel h h' d" if d: "d \<in> set cs" for d
  proof (rule compOK_transfer [OF oks [OF d] _ refl])
    fix n assume "\<exists>f \<in> set d. onFace g0 f n"
    with d have "\<exists>b \<in> set (concat cs). onFace g0 b n" by auto
    then show "isMaskSet h1 n pm = isMaskSet h n pm" by (rule keep1)
  qed
  have "\<forall>d \<in> set (c # cs). compOK g0 pm fuel h h' d" using okc okd by simp
  with run sl' out show ?case by blast
qed

lemma mostNegativeFace_sameLinks:
  assumes sl: "sameLinks g g0" and wf: "wfLinks g" and r: "\<forall>f \<in> set c. f < length g"
  shows "mostNegativeFace fuel g0 c ext = mostNegativeFace fuel g c ext"
proof -
  have "signedFaceArea fuel g0 f = signedFaceArea fuel g f" if "f \<in> set c" for f
    using signedFaceArea_sameLinks [OF sl wf] r that by simp
  then show ?thesis unfolding mostNegativeFace_def by (metis (no_types, lifting))
qed

text \<open>
  C5. Let the links of the graph be well formed, every edge mate a node of the graph, and
  the parity mask not null. Then \<^verbatim>\<open>collectConnectedComponents\<close> returns, with enough fuel;
  \<open>gf\<close> is the graph after the flood fill of all components and \<open>g'\<close> the graph returned.
  For every component \<open>c\<close> and the face \<open>ext\<close> of it with the most negative signed area
  (the first such among the face seeds of \<open>c\<close>): if \<open>ext\<close> does not carry the parity mask
  in \<open>gf\<close> then the mask is toggled on every node of every face of \<open>c\<close>, and otherwise it is
  left as it is; in both cases \<open>ext\<close> carries the parity mask in \<open>g'\<close>.
\<close>

theorem outer_face_carries_parity:
  assumes wf: "wfLinks g" and mr: "matesInRange g" and pm: "parityMask \<noteq> 0"
    and fuel: "length g < fuel"
  shows "\<exists>gf comps g'.
     collectLoop fuel parityMask [0 ..< length g] (graphClearMask (parityMask OR VISITED) g) []
       = Inr (gf, comps) \<and>
     collectConnectedComponents fuel g parityMask = Inr (g', comps) \<and>
     (\<forall>c \<in> set comps. \<forall>ext. mostNegativeFace fuel g c ext \<longrightarrow>
        isMaskSet g' ext parityMask \<and>
        (\<forall>f \<in> set c. \<forall>n. onFace g f n \<longrightarrow>
           isMaskSet g' n parityMask =
             (if isMaskSet gf ext parityMask then isMaskSet gf n parityMask
              else \<not> isMaskSet gf n parityMask)))"
proof -
  define g0 where "g0 = graphClearMask (parityMask OR VISITED) g"
  have sl0: "sameLinks g g0" by (simp add: g0_def)
  have len: "length g0 = length g" by (simp add: g0_def graphClearMask_def)
  have wf0: "wfLinks g0" by (rule wfLinks_sameLinks [OF sl0 wf])
  have mr0: "matesInRange g0" by (rule matesInRange_sameLinks [OF sl0 mr])
  have fuel0: "length g0 < fuel" using fuel len by simp
  have clr: "\<not> isMaskSet g0 n VISITED" "\<not> isMaskSet g0 n parityMask" if "n < length g" for n
    using isMaskSet_graphClearMask [OF that] by (simp_all add: g0_def)
  have inv0: "floodInv g0 parityMask g0"
    unfolding floodInv_def
  proof (intro conjI allI impI)
    show "sameLinks g0 g0" by simp
  next
    fix n assume n: "n < length g0"
    from wfLinksD [OF wf0 n] have "fsucc g0 n < length g" by (simp add: len)
    from clr [OF this] clr [of n] n len
    show "isMaskSet g0 (fsucc g0 n) VISITED = isMaskSet g0 n VISITED"
         "isMaskSet g0 (fsucc g0 n) parityMask = isMaskSet g0 n parityMask"
      by simp_all
  next
    fix n assume "n < length g0"
    with clr [of n] len show "\<not> isMaskSet g0 n parityMask" by simp
  qed
  have ix: "set [0 ..< length g0] \<subseteq> {..< length g0}" by auto
  from collectLoop_inv [OF wf0 mr0 fuel0 inv0 ix, of "[]"]
  obtain gf comps where cl: "collectLoop fuel parityMask [0 ..< length g0] g0 [] = Inr (gf, comps)"
    and fo: "floodOut g0 parityMask g0 gf (concat comps)" and ne: "[] \<notin> set comps"
    by auto
  from fo have invf: "floodInv g0 parityMask gf"
    and rs: "\<forall>f \<in> set (concat comps). f < length g0"
    and sw: "sorted_wrt (\<lambda>a b. \<not> onFace g0 a b) (concat comps)"
    unfolding floodOut_def by blast+
  from invf have slf: "sameLinks g0 gf" by (simp add: floodInv_def)
  have U: "\<forall>f \<in> set (concat comps). \<forall>n. onFace g0 f n \<longrightarrow>
             isMaskSet gf n parityMask = isMaskSet gf f parityMask"
    using mask_const_on_face(2) [OF invf wf0] rs by blast
  from correctAll_spec [OF wf0 fuel0 pm slf ne rs sw U]
  obtain g' where ca: "correctAll fuel parityMask comps gf = Inr g'"
    and oks: "\<And>c. c \<in> set comps \<Longrightarrow> compOK g0 parityMask fuel gf g' c"
    by blast
  have run: "collectConnectedComponents fuel g parityMask = Inr (g', comps)"
    using cl ca pm
    by (simp add: collectConnectedComponents_def Let_def g0_def [symmetric]
        correctParityInComponentArrays_def)
  have main: "isMaskSet g' ext parityMask \<and>
        (\<forall>f \<in> set c. \<forall>n. onFace g f n \<longrightarrow>
           isMaskSet g' n parityMask =
             (if isMaskSet gf ext parityMask then isMaskSet gf n parityMask
              else \<not> isMaskSet gf n parityMask))"
    if c: "c \<in> set comps" and m: "mostNegativeFace fuel g c ext" for c ext
  proof -
    from c rs have rc: "\<forall>f \<in> set c. f < length g" by (auto simp: len)
    from m mostNegativeFace_sameLinks [OF sl0 wf rc]
    have m0: "mostNegativeFace fuel g0 c ext" by simp
    from oks [OF c] m0 have 1: "isMaskSet g' ext parityMask"
      and 2: "\<And>n. \<exists>f \<in> set c. onFace g0 f n \<Longrightarrow>
             isMaskSet g' n parityMask =
               (if isMaskSet gf ext parityMask then isMaskSet gf n parityMask
                else \<not> isMaskSet gf n parityMask)"
      unfolding compOK_def by blast+
    have "isMaskSet g' n parityMask =
             (if isMaskSet gf ext parityMask then isMaskSet gf n parityMask
              else \<not> isMaskSet gf n parityMask)"
      if f: "f \<in> set c" and o: "onFace g f n" for f n
    proof -
      from f rc have "f < length g" by simp
      from onFace_sameLinks [OF sl0 wf this] o have "onFace g0 f n" by simp
      with f have "\<exists>f \<in> set c. onFace g0 f n" by blast
      then show ?thesis by (rule 2)
    qed
    with 1 show ?thesis by blast
  qed
  from cl run main show ?thesis unfolding g0_def len [unfolded g0_def] by blast
qed

text \<open>
  The theorem on the graph of the outer loop \<open>notchedOuter\<close> and the hole loop \<open>smallHole\<close>,
  with the parity mask 4: there are two components, each of two faces. The flood fill
  starts on the faces of nodes 0 and 10, whose areas are positive, and gives them the parity
  mask; the faces of nodes 1 and 11 have the negative areas, so both components are toggled.
\<close>

theorem outer_face_carries_parity_witness:
  "wfLinks notchedWithHole \<and> matesInRange notchedWithHole \<and> (4 :: int) \<noteq> 0 \<and>
   length notchedWithHole < 20 \<and>
   signedFaceArea 20 notchedWithHole 0 = Inr 60 \<and>
   signedFaceArea 20 notchedWithHole 1 = Inr (- 60) \<and>
   signedFaceArea 20 notchedWithHole 10 = Inr (1 / 2) \<and>
   signedFaceArea 20 notchedWithHole 11 = Inr (- 1 / 2) \<and>
   (\<exists>g'. collectConnectedComponents 20 notchedWithHole 4 = Inr (g', [[0, 1], [10, 11]]) \<and>
         isMaskSet g' 1 4 \<and> isMaskSet g' 11 4)"
proof -
  have wf: "wfLinks notchedWithHole" by code_simp
  have mr: "matesInRange notchedWithHole" by code_simp
  have pm: "(4 :: int) \<noteq> 0" by simp
  have len: "length notchedWithHole < 20" by code_simp
  have a0: "signedFaceArea 20 notchedWithHole 0 = Inr 60" by code_simp
  have a1: "signedFaceArea 20 notchedWithHole 1 = Inr (- 60)" by code_simp
  have a10: "signedFaceArea 20 notchedWithHole 10 = Inr (1 / 2)" by code_simp
  have a11: "signedFaceArea 20 notchedWithHole 11 = Inr (- 1 / 2)" by code_simp
  have cs: "map_sum id snd (collectConnectedComponents 20 notchedWithHole 4) =
            Inr [[0, 1], [10, 11]]"
    by code_simp
  from outer_face_carries_parity [OF wf mr pm len]
  obtain gf comps g' where run: "collectConnectedComponents 20 notchedWithHole 4 = Inr (g', comps)"
    and ok: "\<And>c ext. c \<in> set comps \<Longrightarrow> mostNegativeFace 20 notchedWithHole c ext \<Longrightarrow>
               isMaskSet g' ext 4"
    by blast
  from run cs have comps: "comps = [[0, 1], [10, 11]]" by simp
  have m1: "mostNegativeFace 20 notchedWithHole [0, 1] 1"
    unfolding mostNegativeFace_def leastNeg_def
    by (rule exI [of _ "\<lambda>f. if f = 0 then 60 else - 60"]) (simp add: a0 a1 del: One_nat_def)
  have m11: "mostNegativeFace 20 notchedWithHole [10, 11] 11"
    unfolding mostNegativeFace_def leastNeg_def
    by (rule exI [of _ "\<lambda>f. if f = 10 then 1 / 2 else - 1 / 2"]) (simp add: a10 a11)
  have "isMaskSet g' 1 4" by (rule ok [OF _ m1]) (simp add: comps)
  moreover have "isMaskSet g' 11 4" by (rule ok [OF _ m11]) (simp add: comps)
  ultimately have "\<exists>g'. collectConnectedComponents 20 notchedWithHole 4 =
      Inr (g', [[0, 1], [10, 11]]) \<and> isMaskSet g' 1 4 \<and> isMaskSet g' 11 4"
    using run comps by blast
  with wf mr pm len a0 a1 a10 a11 show ?thesis by blast
qed


end
